theory Spec2Isabelle
  imports
    Complex_Main
    "HOL-Library.Multiset"
    "HOL-Library.Char_ord"
    "HOL-Library.List_Lexorder"
    "HOL-Library.Monad_Syntax"
begin

section \<open>Data model of \<open>src/app/page.tsx\<close>\<close>

text \<open>
  Modelling conventions.
  \<^item> A JavaScript \<open>number\<close> that holds a weight, a score or a temperature is a \<open>real\<close>;
    rounding, infinities and NaN of IEEE doubles are outside the model. Array lengths,
    indices and counts are \<open>nat\<close>. The group size and the iteration budget are \<open>int\<close>
    (the specification's data model makes both integers; the code accepts negative ones).
  \<^item> A string is a \<open>char list\<close>; \<open>a < b\<close> on strings is the lexicographic order on
    code units, a proper prefix being smaller, as in JavaScript.
  \<^item> \<open>Math.random\<close> is a list of the values it returns, consumed from the front, each
    one in the half-open unit interval. A computation that asks for a value when the list
    is exhausted has no result (\<open>None\<close>): the list bounds the length of the run, and
    the loop \<open>while (gj === gi)\<close>, which need not terminate, uses one value per round.
  \<^item> Arrays are lists; the arrays of the search are copied by the source before they are
    mutated (\<open>map((g) => [...g])\<close>), so the best partition never aliases the current one.
\<close>

datatype Gender = G_f | G_m | G_x | G_na

datatype Level = Bachelor | Master | L_na

record Student =
  id_s :: string
  name :: string
  gender :: Gender
  level :: Level
  exchange :: "bool option"  \<comment> \<open>\<open>boolean | "na"\<close>, \<open>None\<close> for \<open>"na"\<close>\<close>

type_synonym Group = "Student list"

record Weights =
  forbidPair :: real
  genderImbalance :: real
  levelImbalance :: real
  exchangeImbalance :: real
  sizeImbalance :: real

datatype error = Error string

record Result =
  groups :: "Group list"
  score :: real

type_synonym Rng = "real list"

text \<open>What \<open>Math.random\<close> promises of the values it returns.\<close>

definition validRng :: "Rng \<Rightarrow> bool" where
  "validRng rs \<longleftrightarrow> (\<forall>r \<in> set rs. 0 \<le> r \<and> r < 1)"

section \<open>Forbidden pairs\<close>

text \<open>The key \<open>a < b ? `${a}||${b}` : `${b}||${a}`\<close>, written out twice in the source.\<close>

definition pairKey :: "string \<Rightarrow> string \<Rightarrow> string" where
  "pairKey a b = (if a < b then a @ ''||'' @ b else b @ ''||'' @ a)"

definition buildForbiddenPairs :: "Group list \<Rightarrow> string set" where
  "buildForbiddenPairs previousGroups =
     fold (\<lambda>g acc.
        fold (\<lambda>i acc.
           fold (\<lambda>j acc. insert (pairKey (id_s (g ! i)) (id_s (g ! j))) acc)
             [i + 1 ..< length g] acc)
          [0 ..< length g] acc)
       previousGroups {}"

section \<open>Random source, shuffle and chunking\<close>

text \<open>\<open>Math.floor(r * n)\<close> for a value \<open>r\<close> of the random source.\<close>

definition floorIndex :: "real \<Rightarrow> nat \<Rightarrow> nat" where
  "floorIndex r n = nat \<lfloor>r * real n\<rfloor>"

fun randomIndex :: "nat \<Rightarrow> Rng \<Rightarrow> (nat \<times> Rng) option" where
  "randomIndex n [] = None"
| "randomIndex n (r # rs) = Some (floorIndex r n, rs)"

text \<open>The loop of \<open>shuffle\<close>, \<open>for (i = a.length - 1; i > 0; i--)\<close>, by its index.\<close>

fun shuffleLoop :: "nat \<Rightarrow> 'a list \<Rightarrow> Rng \<Rightarrow> ('a list \<times> Rng) option" where
  "shuffleLoop 0 a rs = Some (a, rs)"
| "shuffleLoop (Suc k) a [] = None"
| "shuffleLoop (Suc k) a (r # rs) =
     (let i = Suc k; j = floorIndex r (i + 1)
      in shuffleLoop k (a[i := a ! j, j := a ! i]) rs)"

definition shuffle :: "'a list \<Rightarrow> Rng \<Rightarrow> ('a list \<times> Rng) option" where
  "shuffle arr rs = shuffleLoop (length arr - 1) arr rs"

text \<open>
  \<open>chunkGroups\<close>: \<open>for (i = 0; i < students.length; i += groupSize)\<close>. On a non-empty
  list with a group size of zero or less the index never reaches the length and the source
  loop does not end: \<open>chunkGroups\<close> has no result there. The test \<open>0 < groupSize\<close> in
  \<open>chunkLoop\<close> is what makes it a total function; \<open>chunkGroups\<close> calls it with a
  positive group size or an empty list only.
\<close>

function chunkLoop :: "nat \<Rightarrow> 'a list \<Rightarrow> nat \<Rightarrow> 'a list list \<Rightarrow> 'a list list" where
  "chunkLoop i students groupSize acc =
     (if i < length students \<and> 0 < groupSize
      then chunkLoop (i + groupSize) students groupSize
             (acc @ [take groupSize (drop i students)])
      else acc)"
  by pat_completeness auto
termination
  by (relation "measure (\<lambda>(i, students, groupSize, acc). length students - i)") auto

declare chunkLoop.simps [simp del]

definition chunkGroups :: "'a list \<Rightarrow> int \<Rightarrow> 'a list list option" where
  "chunkGroups students groupSize =
     (if students \<noteq> [] \<and> groupSize \<le> 0 then None
      else Some (chunkLoop 0 students (nat groupSize) []))"

section \<open>Scoring\<close>

text \<open>\<open>r[k] ?? 0\<close> on a record of counts.\<close>

definition orZero :: "nat option \<Rightarrow> nat" where
  "orZero v = (case v of None \<Rightarrow> 0 | Some c \<Rightarrow> c)"

definition countBy :: "Group \<Rightarrow> (Student \<Rightarrow> 'k) \<Rightarrow> ('k \<rightharpoonup> nat)" where
  "countBy grp keyFn =
     fold (\<lambda>s r. r(keyFn s \<mapsto> orZero (r (keyFn s)) + 1)) grp Map.empty"

definition exchangeKey :: "Student \<Rightarrow> string" where
  "exchangeKey s =
     (case exchange s of None \<Rightarrow> ''na'' | Some b \<Rightarrow> if b then ''true'' else ''false'')"

definition groupScore :: "Group \<Rightarrow> string set \<Rightarrow> int \<Rightarrow> Weights \<Rightarrow> real" where
  "groupScore grp forbiddenPairs targetSize w =
     (let score0 =
            fold (\<lambda>i sc.
               fold (\<lambda>j sc.
                  if pairKey (id_s (grp ! i)) (id_s (grp ! j)) \<in> forbiddenPairs
                  then sc + forbidPair w else sc)
                 [i + 1 ..< length grp] sc)
              [0 ..< length grp] 0;
          score1 = score0
            + sizeImbalance w * \<bar>real_of_int (int (length grp) - targetSize)\<bar>;
          genders = countBy grp gender;
          levels = countBy grp level;
          exch = countBy grp exchangeKey;
          knownGenderCount = orZero (genders G_f) + orZero (genders G_m) + orZero (genders G_x);
          score2 =
            (if 2 \<le> knownGenderCount then
               (let vals = filter (\<lambda>v. 0 < v \<or> True)
                             [orZero (genders G_f), orZero (genders G_m), orZero (genders G_x)];
                    mx = Max (set vals);
                    mn = Min (set vals)
                in score1 + genderImbalance w * (real mx - real mn))
             else score1);
          knownLevelCount = orZero (levels Bachelor) + orZero (levels Master);
          score3 =
            (if 2 \<le> knownLevelCount then
               score2 + levelImbalance w
                 * \<bar>real (orZero (levels Bachelor)) - real (orZero (levels Master))\<bar>
             else score2);
          knownExCount = orZero (exch ''true'') + orZero (exch ''false'');
          score4 =
            (if 2 \<le> knownExCount then
               score3 + exchangeImbalance w
                 * \<bar>real (orZero (exch ''true'')) - real (orZero (exch ''false''))\<bar>
             else score3)
      in score4)"

definition totalScore :: "Group list \<Rightarrow> string set \<Rightarrow> int \<Rightarrow> Weights \<Rightarrow> real" where
  "totalScore gs forbiddenPairs targetSize w =
     fold (\<lambda>g acc. acc + groupScore g forbiddenPairs targetSize w) gs 0"

section \<open>The search\<close>

record SearchState =
  bestGroups :: "Group list"
  bestScore :: real
  curGroups :: "Group list"
  curScore :: real

text \<open>\<open>while (gj === gi) gj = randomIndex(groupCount)\<close>.\<close>

fun redraw :: "nat \<Rightarrow> nat \<Rightarrow> nat \<Rightarrow> Rng \<Rightarrow> (nat \<times> Rng) option" where
  "redraw groupCount gi gj [] = (if gj = gi then None else Some (gj, []))"
| "redraw groupCount gi gj (r # rs) =
     (if gj = gi then redraw groupCount gi (floorIndex r groupCount) rs
      else Some (gj, r # rs))"

text \<open>\<open>delta <= 0 || Math.random() < Math.exp(-delta / temp)\<close>; the right operand, and
  its call of the random source, is evaluated only when the left one is false.\<close>

fun saysYes :: "real \<Rightarrow> real \<Rightarrow> Rng \<Rightarrow> (bool \<times> Rng) option" where
  "saysYes delta temp [] = (if delta \<le> 0 then Some (True, []) else None)"
| "saysYes delta temp (r # rs) =
     (if delta \<le> 0 then Some (True, r # rs) else Some (r < exp (- delta / temp), rs))"

text \<open>
  The two assignments \<open>g1[i] = x; g2[j] = y\<close>, where \<open>g1\<close> and \<open>g2\<close> are the
  arrays \<open>curGroups[gi]\<close> and \<open>curGroups[gj]\<close>: one and the same array when
  \<open>gi = gj\<close>, so the second assignment works on the result of the first. The swap is
  this with \<open>x = b, y = a\<close>, the revert with \<open>x = a, y = b\<close>.
\<close>

definition assignPair ::
  "'a list list \<Rightarrow> nat \<Rightarrow> nat \<Rightarrow> nat \<Rightarrow> nat \<Rightarrow> 'a \<Rightarrow> 'a \<Rightarrow> 'a list list" where
  "assignPair gs gi i gj j x y =
     (let gs1 = gs[gi := (gs ! gi)[i := x]]
      in gs1[gj := (gs1 ! gj)[j := y]])"

text \<open>How one round of the \<open>for\<close> loop ends: at its end or by \<open>continue\<close> (\<open>Next\<close>),
  or by \<open>break\<close>.\<close>

datatype Flow = Next | Break

text \<open>
  The body of the \<open>for\<close> loop, in the order of the source: the two groups are picked
  (\<open>pickGroups\<close>); if one of them is empty the round ends by \<open>continue\<close>; otherwise a
  member of each is picked, the two are swapped, the partition is scored and the swap is
  kept or reverted (\<open>swapMembers\<close>, with \<open>settle\<close> for the \<open>if (saysYes)\<close> statement);
  last comes the test for \<open>break\<close>.
\<close>

definition pickGroups :: "nat \<Rightarrow> Rng \<Rightarrow> (nat \<times> nat \<times> Rng) option" where
  "pickGroups groupCount rs0 = do {
     (gi, rs1) \<leftarrow> randomIndex groupCount rs0;
     (gj0, rs2) \<leftarrow> randomIndex groupCount rs1;
     (gj, rs3) \<leftarrow> (if 1 < groupCount then redraw groupCount gi gj0 rs2
                    else Some (gj0, rs2));
     Some (gi, gj, rs3)
   }"

definition settle ::
  "SearchState \<Rightarrow> bool \<Rightarrow> Group list \<Rightarrow> real \<Rightarrow> Group list \<Rightarrow> SearchState" where
  "settle st yes swapped newScore reverted =
     (if yes then
        (let st1 = st\<lparr>curGroups := swapped, curScore := newScore\<rparr>
         in if curScore st1 < bestScore st1
            then st1\<lparr>bestScore := curScore st1, bestGroups := curGroups st1\<rparr>
            else st1)
      else st\<lparr>curGroups := reverted\<rparr>)"

definition swapMembers ::
  "string set \<Rightarrow> int \<Rightarrow> Weights \<Rightarrow> real \<Rightarrow> nat \<Rightarrow> nat \<Rightarrow> SearchState \<Rightarrow> Rng
     \<Rightarrow> (Flow \<times> SearchState \<times> Rng) option" where
  "swapMembers forbiddenPairs targetSize w temp gi gj st rs3 =
     (let g1 = curGroups st ! gi; g2 = curGroups st ! gj
      in do {
        (i, rs4) \<leftarrow> randomIndex (length g1) rs3;
        (j, rs5) \<leftarrow> randomIndex (length g2) rs4;
        let a = g1 ! i;
        let b = g2 ! j;
        let swapped = assignPair (curGroups st) gi i gj j b a;
        let newScore = totalScore swapped forbiddenPairs targetSize w;
        let delta = newScore - curScore st;
        (yes, rs6) \<leftarrow> saysYes delta temp rs5;
        let st' = settle st yes swapped newScore (assignPair swapped gi i gj j a b);
        Some (if bestScore st' = 0 then Break else Next, st', rs6)
      })"

definition attempt ::
  "string set \<Rightarrow> int \<Rightarrow> Weights \<Rightarrow> int \<Rightarrow> nat \<Rightarrow> nat \<Rightarrow> SearchState \<Rightarrow> Rng
     \<Rightarrow> (Flow \<times> SearchState \<times> Rng) option" where
  "attempt forbiddenPairs targetSize w attempts groupCount t st rs0 =
     (let startTemp = 3.0; endTemp = 0.2;
          temp = startTemp
            + (endTemp - startTemp) * (real t / real_of_int (max 1 (attempts - 1)))
      in do {
        (gi, gj, rs3) \<leftarrow> pickGroups groupCount rs0;
        if length (curGroups st ! gi) = 0 \<or> length (curGroups st ! gj) = 0
        then Some (Next, st, rs3)
        else swapMembers forbiddenPairs targetSize w temp gi gj st rs3
      })"

function searchLoop ::
  "string set \<Rightarrow> int \<Rightarrow> Weights \<Rightarrow> int \<Rightarrow> nat \<Rightarrow> nat \<Rightarrow> SearchState \<Rightarrow> Rng
     \<Rightarrow> (SearchState \<times> Rng) option" where
  "searchLoop forbiddenPairs targetSize w attempts groupCount t st rs =
     (if int t < attempts then
        (case attempt forbiddenPairs targetSize w attempts groupCount t st rs of
           None \<Rightarrow> None
         | Some (Break, st', rs') \<Rightarrow> Some (st', rs')
         | Some (Next, st', rs') \<Rightarrow>
             searchLoop forbiddenPairs targetSize w attempts groupCount (Suc t) st' rs')
      else Some (st, rs))"
  by pat_completeness auto
termination
  by (relation "measure (\<lambda>(fp, ts, w, attempts, gc, t, st, rs). nat (attempts - int t))")
     auto

declare searchLoop.simps [simp del]

text \<open>The state the search starts from: the first partition, the chunking of the
  shuffled list, as best and (copied) as current partition.\<close>

definition initialState ::
  "Group list \<Rightarrow> int \<Rightarrow> string set \<Rightarrow> Weights \<Rightarrow> SearchState" where
  "initialState bestGroups0 groupSize forbiddenPairs w =
     (let bestScore0 = totalScore bestGroups0 forbiddenPairs groupSize w
      in \<lparr>bestGroups = bestGroups0, bestScore = bestScore0,
          curGroups = map (\<lambda>g. g) bestGroups0, curScore = bestScore0\<rparr>)"

definition generateGroupsOptimized ::
  "Student list \<Rightarrow> int \<Rightarrow> string set \<Rightarrow> int \<Rightarrow> Weights \<Rightarrow> Rng \<Rightarrow> (error + Result) option"
  where
  "generateGroupsOptimized students groupSize forbiddenPairs attempts w rs =
     (if groupSize < 2 then Some (Inl (Error ''groupSize must be >= 2''))
      else if length students = 0 then Some (Inr \<lparr>groups = [], score = 0\<rparr>)
      else do {
        (shuffled, rs1) \<leftarrow> shuffle students rs;
        bestGroups0 \<leftarrow> chunkGroups shuffled groupSize;
        let st0 = initialState bestGroups0 groupSize forbiddenPairs w;
        let groupCount = length (curGroups st0);
        (st, rs2) \<leftarrow> searchLoop forbiddenPairs groupSize w attempts groupCount 0 st0 rs1;
        Some (Inr \<lparr>groups = bestGroups st, score = bestScore st\<rparr>)
      })"

section \<open>Auxiliary notions for the statements\<close>

text \<open>
  The number of index pairs \<open>i < j\<close> of a list of ids whose key is in the set, by
  recursion on the list; the members of a group with a given value of an attribute; the
  three balance terms of \<open>groupScore\<close> in terms of those counts.
\<close>

fun repeatCount :: "string set \<Rightarrow> string list \<Rightarrow> nat" where
  "repeatCount fp [] = 0"
| "repeatCount fp (a # ids) = length (filter (\<lambda>b. pairKey a b \<in> fp) ids) + repeatCount fp ids"

definition genderCount :: "Gender \<Rightarrow> Group \<Rightarrow> nat" where
  "genderCount k grp = length (filter (\<lambda>s. gender s = k) grp)"

definition levelCount :: "Level \<Rightarrow> Group \<Rightarrow> nat" where
  "levelCount k grp = length (filter (\<lambda>s. level s = k) grp)"

definition exchangeCount :: "bool \<Rightarrow> Group \<Rightarrow> nat" where
  "exchangeCount k grp = length (filter (\<lambda>s. exchange s = Some k) grp)"

definition genderTerm :: "Group \<Rightarrow> Weights \<Rightarrow> real" where
  "genderTerm grp w =
     (let f = genderCount G_f grp; m = genderCount G_m grp; x = genderCount G_x grp
      in if 2 \<le> f + m + x
         then genderImbalance w * (real (Max {f, m, x}) - real (Min {f, m, x})) else 0)"

definition levelTerm :: "Group \<Rightarrow> Weights \<Rightarrow> real" where
  "levelTerm grp w =
     (let b = levelCount Bachelor grp; m = levelCount Master grp
      in if 2 \<le> b + m then levelImbalance w * \<bar>real b - real m\<bar> else 0)"

definition exchangeTerm :: "Group \<Rightarrow> Weights \<Rightarrow> real" where
  "exchangeTerm grp w =
     (let t = exchangeCount True grp; f = exchangeCount False grp
      in if 2 \<le> t + f then exchangeImbalance w * \<bar>real t - real f\<bar> else 0)"

definition hit :: "string set \<Rightarrow> string \<Rightarrow> string \<Rightarrow> nat" where
  "hit fp a b = (if pairKey a b \<in> fp then 1 else 0)"

text \<open>An id without the character of the key's separator.\<close>

definition barFree :: "string \<Rightarrow> bool" where
  "barFree a \<longleftrightarrow> CHR ''|'' \<notin> set a"

subsection \<open>Example data\<close>

text \<open>The four students of the specification's scenarios and the weights that
  \<open>Page\<close> passes.\<close>

definition stA :: Student where
  "stA = \<lparr>id_s = ''a'', name = ''A'', gender = G_f, level = Master, exchange = Some False\<rparr>"

definition stB :: Student where
  "stB = \<lparr>id_s = ''b'', name = ''B'', gender = G_m, level = Bachelor, exchange = Some True\<rparr>"

definition stC :: Student where
  "stC = \<lparr>id_s = ''c'', name = ''C'', gender = G_x, level = Master, exchange = Some False\<rparr>"

definition stD :: Student where
  "stD = \<lparr>id_s = ''d'', name = ''D'', gender = G_na, level = L_na, exchange = None\<rparr>"

definition defaultWeights :: Weights where
  "defaultWeights = \<lparr>forbidPair = 250, genderImbalance = 6, levelImbalance = 4,
     exchangeImbalance = 4, sizeImbalance = 1\<rparr>"

text \<open>Three students whose names, and so ids, are \<open>a\<close>, \<open>b||c\<close> and \<open>a||b\<close>.\<close>

definition stP :: Student where
  "stP = \<lparr>id_s = ''a'', name = ''a'', gender = G_na, level = L_na, exchange = None\<rparr>"

definition stQ :: Student where
  "stQ = \<lparr>id_s = ''b||c'', name = ''b||c'', gender = G_na, level = L_na, exchange = None\<rparr>"

definition stR :: Student where
  "stR = \<lparr>id_s = ''a||b'', name = ''a||b'', gender = G_na, level = L_na, exchange = None\<rparr>"

text \<open>
  Two runs. The first: four students in the order A, C, B, D, group size two, three
  rounds. The first three values leave the order as it is; the next four pick C and B in
  round 0, whose swap lowers the score from 22 to 6; rounds 1 and 2 pick B and C with the
  same four values, each time followed by the value that decides the uphill move back:
  \<open>1 / 2\<close>, which rejects it, and \<open>0\<close>, which accepts it. The second: three students,
  group size two, one round.
\<close>

definition exStudents :: "Student list" where
  "exStudents = [stA, stC, stB, stD]"

definition exDraws :: Rng where
  "exDraws = [3 / 4, 2 / 3, 1 / 2,  0, 1 / 2, 1 / 2, 0,  0, 1 / 2, 1 / 2, 0, 1 / 2,
              0, 1 / 2, 1 / 2, 0, 0]"

definition smallStudents :: "Student list" where
  "smallStudents = [stA, stB, stC]"

definition smallDraws :: Rng where
  "smallDraws = [0, 1 / 2, 0, 1 / 2, 0, 0]"

section \<open>Scoring: lemmas\<close>

lemma countBy_fold:
  "orZero (fold (\<lambda>s r. r(keyFn s \<mapsto> orZero (r (keyFn s)) + 1)) grp m k)
     = orZero (m k) + length (filter (\<lambda>s. keyFn s = k) grp)"
  by (induction grp arbitrary: m) (auto simp: orZero_def)

lemma countBy_count:
  "orZero (countBy grp keyFn k) = length (filter (\<lambda>s. keyFn s = k) grp)"
  unfolding countBy_def by (subst countBy_fold) (simp add: orZero_def)

lemma exchangeKey_true: "exchangeKey s = ''true'' \<longleftrightarrow> exchange s = Some True"
  by (auto simp: exchangeKey_def split: option.splits)

lemma exchangeKey_false: "exchangeKey s = ''false'' \<longleftrightarrow> exchange s = Some False"
  by (auto simp: exchangeKey_def split: option.splits)

lemma inner_fold:
  "fold (\<lambda>j sc. if P (g ! j) then sc + c else sc) [a ..< length g] (sc::real)
     = sc + c * real (length (filter P (drop a g)))"
proof (induction "length g - a" arbitrary: a sc)
  case 0
  then show ?case by simp
next
  case (Suc n)
  then have lt: "a < length g" by simp
  have d: "drop a g = g ! a # drop (Suc a) g"
    using lt by (simp add: Cons_nth_drop_Suc)
  have n: "n = length g - Suc a" using Suc.hyps(2) by simp
  show ?case
    using Suc.hyps(1)[OF n] lt
    by (simp add: upt_conv_Cons d algebra_simps)
qed

lemma outer_fold:
  "fold (\<lambda>i sc.
      fold (\<lambda>j sc. if pairKey (id_s (g ! i)) (id_s (g ! j)) \<in> fp then sc + c else sc)
        [i + 1 ..< length g] sc)
     [a ..< length g] (sc::real)
   = sc + c * real (repeatCount fp (map id_s (drop a g)))"
proof (induction "length g - a" arbitrary: a sc)
  case 0
  then show ?case by simp
next
  case (Suc n)
  then have lt: "a < length g" by simp
  have d: "drop a g = g ! a # drop (Suc a) g"
    using lt by (simp add: Cons_nth_drop_Suc)
  have n: "n = length g - Suc a" using Suc.hyps(2) by simp
  have inner: "fold (\<lambda>j sc. if pairKey (id_s (g ! a)) (id_s (g ! j)) \<in> fp then sc + c else sc)
        [Suc a ..< length g] sc
      = sc + c * real (length (filter (\<lambda>s. pairKey (id_s (g ! a)) (id_s s) \<in> fp) (drop (Suc a) g)))"
    using inner_fold[of "\<lambda>s. pairKey (id_s (g ! a)) (id_s s) \<in> fp" g c "Suc a" sc] by simp
  show ?case
    using Suc.hyps(1)[OF n] lt
    by (simp add: upt_conv_Cons d inner filter_map comp_def algebra_simps)
qed

lemma groupScore_terms:
  "groupScore grp fp t w =
     forbidPair w * real (repeatCount fp (map id_s grp))
     + sizeImbalance w * \<bar>real_of_int (int (length grp) - t)\<bar>
     + genderTerm grp w + levelTerm grp w + exchangeTerm grp w"
  using outer_fold[of grp fp "forbidPair w" 0 0]
  by (simp add: groupScore_def Let_def countBy_count genderTerm_def levelTerm_def exchangeTerm_def
      genderCount_def levelCount_def exchangeCount_def exchangeKey_true exchangeKey_false)

lemma totalScore_sum:
  "fold (\<lambda>g acc. acc + f g) gs (a::real) = a + sum_list (map f gs)"
  by (induction gs arbitrary: a) simp_all

lemma totalScore_sum_list:
  "totalScore gs fp t w = (\<Sum>g\<leftarrow>gs. groupScore g fp t w)"
  by (simp add: totalScore_def totalScore_sum)

lemma genderTerm_nonneg: "0 \<le> genderImbalance w \<Longrightarrow> 0 \<le> genderTerm grp w"
  by (simp add: genderTerm_def Let_def)

lemma levelTerm_nonneg: "0 \<le> levelImbalance w \<Longrightarrow> 0 \<le> levelTerm grp w"
  by (simp add: levelTerm_def Let_def)

lemma exchangeTerm_nonneg: "0 \<le> exchangeImbalance w \<Longrightarrow> 0 \<le> exchangeTerm grp w"
  by (simp add: exchangeTerm_def Let_def)

lemma groupScore_nonneg:
  assumes "0 \<le> forbidPair w" "0 \<le> genderImbalance w" "0 \<le> levelImbalance w"
    "0 \<le> exchangeImbalance w" "0 \<le> sizeImbalance w"
  shows "0 \<le> groupScore grp fp t w"
proof -
  have "0 \<le> forbidPair w * real (repeatCount fp (map id_s grp))"
    using assms(1) by simp
  moreover have "0 \<le> sizeImbalance w * \<bar>real_of_int (int (length grp) - t)\<bar>"
    using assms(5) by simp
  ultimately show ?thesis
    using genderTerm_nonneg[OF assms(2), of grp] levelTerm_nonneg[OF assms(3), of grp]
      exchangeTerm_nonneg[OF assms(4), of grp]
    unfolding groupScore_terms by linarith
qed

text \<open>
  Claim C2. With five non-negative weights, \<open>totalScore\<close> of any list of groups is the
  sum of \<open>groupScore\<close> over the groups, the sum is not negative, and neither is the
  score of any single group.
\<close>

theorem totalScore_sum_nonneg:
  assumes "0 \<le> forbidPair w" "0 \<le> genderImbalance w" "0 \<le> levelImbalance w"
    "0 \<le> exchangeImbalance w" "0 \<le> sizeImbalance w"
  shows "totalScore gs fp t w = (\<Sum>g\<leftarrow>gs. groupScore g fp t w)
         \<and> 0 \<le> totalScore gs fp t w
         \<and> (\<forall>g. 0 \<le> groupScore g fp t w)"
proof -
  have g: "\<And>g. 0 \<le> groupScore g fp t w"
    using assms by (rule groupScore_nonneg)
  have "0 \<le> (\<Sum>g\<leftarrow>gs. groupScore g fp t w)"
    by (rule sum_list_nonneg) (auto simp: g)
  then show ?thesis
    by (simp add: totalScore_sum_list g)
qed

theorem totalScore_sum_nonneg_witness:
  "totalScore [[stA, stB], [stC, stD]] {} 2 defaultWeights
     = (\<Sum>g\<leftarrow>[[stA, stB], [stC, stD]]. groupScore g {} 2 defaultWeights)
   \<and> 0 \<le> totalScore [[stA, stB], [stC, stD]] {} 2 defaultWeights
   \<and> (\<forall>g. 0 \<le> groupScore g {} 2 defaultWeights)
   \<and> totalScore [[stA, stB], [stC, stD]] {} 2 defaultWeights = 6"
proof -
  have v: "totalScore [[stA, stB], [stC, stD]] {} 2 defaultWeights = 6"
    by (simp add: totalScore_def groupScore_def countBy_def orZero_def exchangeKey_def
        pairKey_def Let_def stA_def stB_def stC_def stD_def defaultWeights_def)
  show ?thesis
    using totalScore_sum_nonneg[of defaultWeights "[[stA, stB], [stC, stD]]" "{}" 2] v
    by (simp add: defaultWeights_def)
qed

lemma known_gender_count:
  "genderCount G_f grp + genderCount G_m grp + genderCount G_x grp
     = length (filter (\<lambda>s. gender s \<noteq> G_na) grp)"
proof (induction grp)
  case Nil
  then show ?case by (simp add: genderCount_def)
next
  case (Cons s grp)
  then show ?case by (cases "gender s") (simp_all add: genderCount_def)
qed

lemma known_level_count:
  "levelCount Bachelor grp + levelCount Master grp
     = length (filter (\<lambda>s. level s \<noteq> L_na) grp)"
proof (induction grp)
  case Nil
  then show ?case by (simp add: levelCount_def)
next
  case (Cons s grp)
  then show ?case by (cases "level s") (simp_all add: levelCount_def)
qed

lemma known_exchange_count:
  "exchangeCount True grp + exchangeCount False grp
     = length (filter (\<lambda>s. exchange s \<noteq> None) grp)"
proof (induction grp)
  case Nil
  then show ?case by (simp add: exchangeCount_def)
next
  case (Cons s grp)
  then show ?case by (cases "exchange s") (auto simp: exchangeCount_def)
qed

lemma repeatCount_none:
  "(\<forall>i j. i < j \<and> j < length ids \<longrightarrow> pairKey (ids ! i) (ids ! j) \<notin> fp)
     \<Longrightarrow> repeatCount fp ids = 0"
proof (induction ids)
  case Nil
  then show ?case by simp
next
  case (Cons a ids)
  have "\<forall>i j. i < j \<and> j < length ids \<longrightarrow> pairKey (ids ! i) (ids ! j) \<notin> fp"
  proof (intro allI impI)
    fix i j assume "i < j \<and> j < length ids"
    then have "Suc i < Suc j \<and> Suc j < length (a # ids)" by simp
    with Cons.prems have "pairKey ((a # ids) ! Suc i) ((a # ids) ! Suc j) \<notin> fp" by blast
    then show "pairKey (ids ! i) (ids ! j) \<notin> fp" by simp
  qed
  then have rest: "repeatCount fp ids = 0" by (rule Cons.IH)
  have "\<forall>b \<in> set ids. pairKey a b \<notin> fp"
  proof
    fix b assume "b \<in> set ids"
    then obtain j where j: "j < length ids" "ids ! j = b"
      by (auto simp: in_set_conv_nth)
    then have "0 < Suc j \<and> Suc j < length (a # ids)" by simp
    with Cons.prems have "pairKey ((a # ids) ! 0) ((a # ids) ! Suc j) \<notin> fp" by blast
    with j show "pairKey a b \<notin> fp" by simp
  qed
  then have "filter (\<lambda>b. pairKey a b \<in> fp) ids = []"
    by (simp add: filter_empty_conv)
  with rest show ?case by simp
qed

text \<open>
  Claim C7. A group whose length is the target size, in which no two positions \<open>i < j\<close>
  hold a pair whose key is forbidden, and with at most one member of known gender, at
  most one of known level and at most one of known exchange status, scores exactly zero
  under every weights configuration.
\<close>

theorem groupScore_zero:
  assumes size: "int (length grp) = targetSize"
    and nopair: "\<forall>i j. i < j \<and> j < length grp
                   \<longrightarrow> pairKey (id_s (grp ! i)) (id_s (grp ! j)) \<notin> fp"
    and g: "length (filter (\<lambda>s. gender s \<noteq> G_na) grp) \<le> 1"
    and l: "length (filter (\<lambda>s. level s \<noteq> L_na) grp) \<le> 1"
    and e: "length (filter (\<lambda>s. exchange s \<noteq> None) grp) \<le> 1"
  shows "groupScore grp fp targetSize w = 0"
proof -
  have "repeatCount fp (map id_s grp) = 0"
    using nopair by (intro repeatCount_none) simp
  moreover have "genderTerm grp w = 0"
    using g known_gender_count[of grp] by (simp add: genderTerm_def Let_def)
  moreover have "levelTerm grp w = 0"
    using l known_level_count[of grp] by (simp add: levelTerm_def Let_def)
  moreover have "exchangeTerm grp w = 0"
    using e known_exchange_count[of grp] by (simp add: exchangeTerm_def Let_def)
  ultimately show ?thesis
    using size by (simp add: groupScore_terms)
qed

theorem groupScore_zero_witness:
  "groupScore [stC, stD] {''a||b''} 2 defaultWeights = 0"
proof -
  have "\<forall>i j. i < j \<and> j < length [stC, stD]
          \<longrightarrow> pairKey (id_s ([stC, stD] ! i)) (id_s ([stC, stD] ! j)) \<notin> {''a||b''}"
    by (auto simp: less_Suc_eq pairKey_def stC_def stD_def)
  then show ?thesis
    by (intro groupScore_zero) (simp_all add: stC_def stD_def)
qed

text \<open>
  Claim C8. In a group with at least two members of known gender the score contains the
  term \<open>genderImbalance\<close> times (largest minus smallest) of the three counts of \<open>f\<close>,
  \<open>m\<close> and \<open>x\<close>, a count of zero taking part in the comparison: the score is the score
  under a gender weight of zero plus that term.
\<close>

theorem groupScore_gender_term:
  assumes "2 \<le> length (filter (\<lambda>s. gender s \<noteq> G_na) grp)"
  shows "groupScore grp fp t w
         = groupScore grp fp t (w\<lparr>genderImbalance := 0\<rparr>)
           + genderImbalance w
             * (real (Max {genderCount G_f grp, genderCount G_m grp, genderCount G_x grp})
                - real (Min {genderCount G_f grp, genderCount G_m grp, genderCount G_x grp}))"
  using assms known_gender_count[of grp]
  by (simp add: groupScore_terms genderTerm_def levelTerm_def exchangeTerm_def Let_def)

text \<open>The example of the claim: two \<open>f\<close> and two \<open>m\<close> members cost twice the gender
  weight, the count zero of \<open>x\<close> being the minimum.\<close>

lemma gender_example:
  assumes "gender s1 = G_f" "gender s2 = G_f" "gender s3 = G_m" "gender s4 = G_m"
  shows "groupScore [s1, s2, s3, s4] fp t w
         = groupScore [s1, s2, s3, s4] fp t (w\<lparr>genderImbalance := 0\<rparr>) + 2 * genderImbalance w"
  using assms
  by (simp add: groupScore_terms genderTerm_def levelTerm_def exchangeTerm_def Let_def genderCount_def)

theorem groupScore_gender_term_witness:
  "groupScore [stA, stA, stB, stB] {} 4 defaultWeights
     = groupScore [stA, stA, stB, stB] {} 4 (defaultWeights\<lparr>genderImbalance := 0\<rparr>)
       + 6 * (real (2::nat) - real (0::nat))"
  using groupScore_gender_term[of "[stA, stA, stB, stB]" "{}" 4 defaultWeights]
  by (simp add: genderCount_def stA_def stB_def defaultWeights_def)

lemma sum_list_mset_cong:
  "mset xs = mset ys \<Longrightarrow> sum_list (map f xs) = (sum_list (map f ys) :: nat)"
  by (metis mset_map sum_mset_sum_list)

lemma pairKey_sym: "pairKey a b = pairKey b a"
  by (auto simp: pairKey_def)

lemma hit_sym: "hit fp a b = hit fp b a"
  by (simp add: hit_def pairKey_sym[of a b])

lemma length_filter_hit:
  "length (filter (\<lambda>b. pairKey a b \<in> fp) ids) = (\<Sum>b\<leftarrow>ids. hit fp a b)"
  by (induction ids) (simp_all add: hit_def)

lemma repeatCount_double:
  "2 * repeatCount fp ids + (\<Sum>a\<leftarrow>ids. hit fp a a)
     = (\<Sum>a\<leftarrow>ids. \<Sum>b\<leftarrow>ids. hit fp a b)"
proof (induction ids)
  case Nil
  then show ?case by simp
next
  case (Cons x ids)
  have col: "(\<Sum>a\<leftarrow>ids. hit fp a x) = (\<Sum>b\<leftarrow>ids. hit fp x b)"
    by (simp add: hit_sym[of fp _ x])
  have "(\<Sum>a\<leftarrow>ids. \<Sum>b\<leftarrow>x # ids. hit fp a b)
          = (\<Sum>a\<leftarrow>ids. hit fp a x) + (\<Sum>a\<leftarrow>ids. \<Sum>b\<leftarrow>ids. hit fp a b)"
    by (simp add: sum_list_addf)
  then show ?case
    using Cons.IH by (simp add: length_filter_hit col)
qed

lemma repeatCount_mset:
  assumes "mset xs = mset ys"
  shows "repeatCount fp xs = repeatCount fp ys"
proof -
  have inner: "\<And>a. (\<Sum>b\<leftarrow>xs. hit fp a b) = (\<Sum>b\<leftarrow>ys. hit fp a b)"
    using assms by (rule sum_list_mset_cong)
  have "(\<Sum>a\<leftarrow>xs. \<Sum>b\<leftarrow>xs. hit fp a b) = (\<Sum>a\<leftarrow>xs. \<Sum>b\<leftarrow>ys. hit fp a b)"
    by (simp add: inner)
  also have "\<dots> = (\<Sum>a\<leftarrow>ys. \<Sum>b\<leftarrow>ys. hit fp a b)"
    using assms by (rule sum_list_mset_cong)
  finally have tot: "(\<Sum>a\<leftarrow>xs. \<Sum>b\<leftarrow>xs. hit fp a b) = (\<Sum>a\<leftarrow>ys. \<Sum>b\<leftarrow>ys. hit fp a b)" .
  have diag: "(\<Sum>a\<leftarrow>xs. hit fp a a) = (\<Sum>a\<leftarrow>ys. hit fp a a)"
    using assms by (rule sum_list_mset_cong)
  show ?thesis
    using repeatCount_double[of fp xs] repeatCount_double[of fp ys] tot diag by linarith
qed

lemma length_filter_mset:
  "mset xs = mset ys \<Longrightarrow> length (filter P xs) = length (filter P ys)"
  by (metis mset_filter size_mset)

text \<open>
  Claim C9. \<open>groupScore\<close> does not depend on the order of the members: two groups with
  the same multiset of members score the same, for every forbidden set, target size and
  weights.
\<close>

theorem groupScore_permutation:
  assumes "mset grp' = mset grp"
  shows "groupScore grp' fp t w = groupScore grp fp t w"
proof -
  have "mset (map id_s grp') = mset (map id_s grp)"
    using assms by simp
  then have r: "repeatCount fp (map id_s grp') = repeatCount fp (map id_s grp)"
    by (rule repeatCount_mset)
  have len: "length grp' = length grp"
    using assms by (rule mset_eq_length)
  have cnt: "\<And>P. length (filter P grp') = length (filter P grp)"
    using assms by (rule length_filter_mset)
  show ?thesis
    by (simp add: groupScore_terms r len genderTerm_def levelTerm_def exchangeTerm_def
        genderCount_def levelCount_def exchangeCount_def cnt)
qed

theorem groupScore_permutation_witness:
  "groupScore [stB, stC, stA] {''a||b''} 2 defaultWeights
     = groupScore [stA, stB, stC] {''a||b''} 2 defaultWeights"
  by (rule groupScore_permutation) simp

section \<open>Forbidden pairs: lemmas\<close>

lemma fold_insert_image:
  "fold (\<lambda>x acc. insert (f x) acc) xs acc = acc \<union> f ` set xs"
  by (induction xs arbitrary: acc) auto

lemma fold_union_image:
  "fold (\<lambda>x acc. acc \<union> F x) xs acc = acc \<union> (\<Union>x \<in> set xs. F x)"
  by (induction xs arbitrary: acc) auto

lemma buildForbiddenPairs_Union:
  "buildForbiddenPairs hist =
     (\<Union>g \<in> set hist. \<Union>i \<in> {0 ..< length g}.
        (\<lambda>j. pairKey (id_s (g ! i)) (id_s (g ! j))) ` {i + 1 ..< length g})"
  by (simp add: buildForbiddenPairs_def fold_insert_image fold_union_image)

lemma buildForbiddenPairs_iff:
  "k \<in> buildForbiddenPairs hist \<longleftrightarrow>
     (\<exists>g \<in> set hist. \<exists>i j. i < j \<and> j < length g
        \<and> k = pairKey (id_s (g ! i)) (id_s (g ! j)))"
proof
  assume "k \<in> buildForbiddenPairs hist"
  then obtain g i j where "g \<in> set hist" "i < length g" "Suc i \<le> j" "j < length g"
      "k = pairKey (id_s (g ! i)) (id_s (g ! j))"
    unfolding buildForbiddenPairs_Union by auto
  then show "\<exists>g \<in> set hist. \<exists>i j. i < j \<and> j < length g
        \<and> k = pairKey (id_s (g ! i)) (id_s (g ! j))"
    by (intro bexI[of _ g] exI[of _ i] exI[of _ j]) simp_all
next
  assume "\<exists>g \<in> set hist. \<exists>i j. i < j \<and> j < length g
        \<and> k = pairKey (id_s (g ! i)) (id_s (g ! j))"
  then obtain g i j where g: "g \<in> set hist" "i < j" "j < length g"
      "k = pairKey (id_s (g ! i)) (id_s (g ! j))"
    by blast
  then have "j \<in> {i + 1 ..< length g}" "i \<in> {0 ..< length g}"
    by simp_all
  with g(1,4) show "k \<in> buildForbiddenPairs hist"
    unfolding buildForbiddenPairs_Union by blast
qed

lemma buildForbiddenPairs_contains:
  assumes "g \<in> set hist" "i < length g" "j < length g" "i \<noteq> j"
  shows "pairKey (id_s (g ! i)) (id_s (g ! j)) \<in> buildForbiddenPairs hist"
proof (cases "i < j")
  case True
  with assms show ?thesis unfolding buildForbiddenPairs_iff by blast
next
  case False
  then have "j < i" using assms(4) by simp
  then have "pairKey (id_s (g ! j)) (id_s (g ! i)) \<in> buildForbiddenPairs hist"
    using assms unfolding buildForbiddenPairs_iff by blast
  then show ?thesis by (simp add: pairKey_sym[of "id_s (g ! i)"])
qed

lemma buildForbiddenPairs_empty: "buildForbiddenPairs [] = {}"
  by (simp add: buildForbiddenPairs_def)

lemma buildForbiddenPairs_scenario:
  "buildForbiddenPairs [[stA, stB], [stC, stD]] = {pairKey ''a'' ''b'', pairKey ''c'' ''d''}
   \<and> pairKey ''a'' ''c'' \<notin> buildForbiddenPairs [[stA, stB], [stC, stD]]
   \<and> pairKey ''a'' ''d'' \<notin> buildForbiddenPairs [[stA, stB], [stC, stD]]
   \<and> pairKey ''b'' ''c'' \<notin> buildForbiddenPairs [[stA, stB], [stC, stD]]
   \<and> pairKey ''b'' ''d'' \<notin> buildForbiddenPairs [[stA, stB], [stC, stD]]"
  by (auto simp add: buildForbiddenPairs_def pairKey_def stA_def stB_def stC_def stD_def)

text \<open>
  Claim C3 asks that the key of a pair of ids is in the set exactly when a historical group
  holds the two ids at two positions. The set holds the keys as strings, \<open>a||b\<close>, and two
  different pairs share a key when an id contains the separator: the history with the one
  group of \<open>a\<close> and \<open>b||c\<close> yields the key \<open>a||b||c\<close>, which is also the key of the pair of
  \<open>a||b\<close> and \<open>c\<close>, two ids that are in no historical group.
\<close>

theorem buildForbiddenPairs_key_collision:
  "pairKey ''a||b'' ''c'' \<in> buildForbiddenPairs [[stP, stQ]]
   \<and> ''a||b'' \<notin> set (map id_s (concat [[stP, stQ]]))
   \<and> ''c'' \<notin> set (map id_s (concat [[stP, stQ]]))"
  by (simp add: buildForbiddenPairs_def pairKey_def stP_def stQ_def)

text \<open>So \<open>groupScore\<close> charges the pair of \<open>a||b\<close> and \<open>c\<close>, who never shared a group,
  the penalty of a repeated pair.\<close>

lemma key_collision_penalty:
  "groupScore [stR, stC] (buildForbiddenPairs [[stP, stQ]]) 2 defaultWeights = 250
   \<and> groupScore [stR, stC] {} 2 defaultWeights = 0"
  by (simp add: buildForbiddenPairs_def groupScore_def countBy_def orZero_def exchangeKey_def
      pairKey_def Let_def stP_def stQ_def stR_def stC_def defaultWeights_def)

text \<open>For ids without the character \<open>|\<close> the key determines the pair, and the set is as
  the claim says.\<close>

lemma key_split:
  assumes "barFree u" "barFree u'" "u @ ''||'' @ v = u' @ ''||'' @ v'"
  shows "u = u' \<and> v = v'"
proof -
  have tw: "takeWhile (\<lambda>c. c \<noteq> CHR ''|'') (w @ ''||'' @ r) = w" if "barFree w" for w r
  proof -
    have "\<forall>c \<in> set w. c \<noteq> CHR ''|''"
      using that by (auto simp: barFree_def)
    then have "takeWhile (\<lambda>c. c \<noteq> CHR ''|'') w = w"
      by (simp add: takeWhile_eq_all_conv)
    then show ?thesis
      by (simp add: takeWhile_tail)
  qed
  have "takeWhile (\<lambda>c. c \<noteq> CHR ''|'') (u @ ''||'' @ v) = u"
    using assms(1) by (rule tw)
  moreover have "takeWhile (\<lambda>c. c \<noteq> CHR ''|'') (u' @ ''||'' @ v') = u'"
    using assms(2) by (rule tw)
  ultimately have "u = u'" using assms(3) by simp
  with assms(3) show ?thesis by simp
qed

lemma pairKey_inj:
  assumes "barFree a" "barFree b" "barFree x" "barFree y" "pairKey a b = pairKey x y"
  shows "(a = x \<and> b = y) \<or> (a = y \<and> b = x)"
  using assms key_split[of a x b y] key_split[of a y b x] key_split[of b x a y] key_split[of b y a x]
  by (auto simp: pairKey_def split: if_splits)

lemma buildForbiddenPairs_barFree:
  assumes hist: "\<forall>g \<in> set hist. \<forall>s \<in> set g. barFree (id_s s)"
    and xy: "barFree x" "barFree y"
  shows "pairKey x y \<in> buildForbiddenPairs hist \<longleftrightarrow>
     (\<exists>g \<in> set hist. \<exists>i j. i < length g \<and> j < length g \<and> i \<noteq> j
        \<and> id_s (g ! i) = x \<and> id_s (g ! j) = y)"
proof
  assume "pairKey x y \<in> buildForbiddenPairs hist"
  then obtain g i j where g: "g \<in> set hist" "i < j" "j < length g"
      "pairKey x y = pairKey (id_s (g ! i)) (id_s (g ! j))"
    unfolding buildForbiddenPairs_iff by blast
  have "barFree (id_s (g ! i))" "barFree (id_s (g ! j))"
    using hist g(1,2,3) by (auto simp: nth_mem)
  from pairKey_inj[OF xy this g(4)]
  consider "id_s (g ! i) = x \<and> id_s (g ! j) = y" | "id_s (g ! j) = x \<and> id_s (g ! i) = y"
    by blast
  then show
    "\<exists>g \<in> set hist. \<exists>i j. i < length g \<and> j < length g \<and> i \<noteq> j
        \<and> id_s (g ! i) = x \<and> id_s (g ! j) = y"
  proof cases
    case 1
    with g(1,2,3) show ?thesis
      by (intro bexI[of _ g] exI[of _ i] exI[of _ j]) simp_all
  next
    case 2
    with g(1,2,3) show ?thesis
      by (intro bexI[of _ g] exI[of _ j] exI[of _ i]) simp_all
  qed
next
  assume "\<exists>g \<in> set hist. \<exists>i j. i < length g \<and> j < length g \<and> i \<noteq> j
        \<and> id_s (g ! i) = x \<and> id_s (g ! j) = y"
  then show "pairKey x y \<in> buildForbiddenPairs hist"
    using buildForbiddenPairs_contains by blast
qed

section \<open>The two early exits of \<open>generateGroupsOptimized\<close>\<close>

text \<open>
  Claim C4. With a group size below two the call throws
  \<open>Error("groupSize must be >= 2")\<close>, the failure the specification names
  InvalidConfiguration, whatever the students, the budget, the forbidden set, the weights
  and the random source; the check comes first, so this holds for an empty list too.
\<close>

theorem generateGroupsOptimized_throws:
  "groupSize < 2 \<Longrightarrow>
     generateGroupsOptimized students groupSize fp attempts w rs
       = Some (Inl (Error ''groupSize must be >= 2''))"
  by (simp add: generateGroupsOptimized_def)

theorem generateGroupsOptimized_throws_witness:
  "generateGroupsOptimized [stA, stB, stC] 1 {} 1000 defaultWeights [0, 1 / 2]
     = Some (Inl (Error ''groupSize must be >= 2''))"
  using generateGroupsOptimized_throws[of 1 "[stA, stB, stC]" "{}" 1000 defaultWeights "[0, 1 / 2]"]
  by simp

text \<open>
  Claim C5, as stated, asks for the empty partition with score zero for every group
  size. The check of the group size precedes the check of the list, so an empty list
  with group size one throws.
\<close>

theorem empty_list_small_groupSize_throws:
  "generateGroupsOptimized [] 1 {} 1000 defaultWeights []
     = Some (Inl (Error ''groupSize must be >= 2''))
   \<and> generateGroupsOptimized [] 1 {} 1000 defaultWeights []
     \<noteq> Some (Inr \<lparr>groups = [], score = 0\<rparr>)"
  by (simp add: generateGroupsOptimized_def)

text \<open>
  Claim C5, amended. For every group size of at least two, every budget, forbidden set
  and weights, the call on an empty list returns no groups and score zero; it does so
  for every random source, the empty one included, so no value of it is asked for and
  the search loop is not entered.
\<close>

theorem generateGroupsOptimized_empty:
  "2 \<le> groupSize \<Longrightarrow>
     generateGroupsOptimized [] groupSize fp attempts w rs
       = Some (Inr \<lparr>groups = [], score = 0\<rparr>)"
  by (simp add: generateGroupsOptimized_def)

theorem generateGroupsOptimized_empty_witness:
  "generateGroupsOptimized [] 3 {''a||b''} 1000 defaultWeights []
     = Some (Inr \<lparr>groups = [], score = 0\<rparr>)"
  using generateGroupsOptimized_empty[of 3 "{''a||b''}" 1000 defaultWeights "[]"]
  by simp

section \<open>The search: lemmas\<close>

subsection \<open>The random source\<close>

lemma floorIndex_less:
  assumes "0 \<le> r" "r < 1" "0 < n"
  shows "floorIndex r n < n"
proof -
  have "r * real n < real n" using assms by simp
  then have "\<lfloor>r * real n\<rfloor> < int n" by (simp add: floor_less_iff)
  then show ?thesis unfolding floorIndex_def using assms(3) by linarith
qed

lemma validRng_Cons: "validRng (r # rs) \<longleftrightarrow> 0 \<le> r \<and> r < 1 \<and> validRng rs"
  by (auto simp: validRng_def)

lemma randomIndex_valid:
  assumes "randomIndex n rs = Some (k, rs')" "validRng rs" "0 < n"
  shows "k < n \<and> validRng rs'"
  using assms by (cases rs) (auto simp: validRng_Cons floorIndex_less)

lemma redraw_valid:
  "redraw n gi gj rs = Some (k, rs') \<Longrightarrow> validRng rs \<Longrightarrow> gj < n \<Longrightarrow> k < n \<and> validRng rs'"
  by (induction n gi gj rs rule: redraw.induct)
     (auto simp: validRng_Cons floorIndex_less split: if_splits)

lemma saysYes_valid: "saysYes d temp rs = Some (y, rs') \<Longrightarrow> validRng rs \<Longrightarrow> validRng rs'"
  by (cases rs) (auto simp: validRng_Cons split: if_splits)

text \<open>The loop \<open>while (gj === gi)\<close> does not end on a source that keeps giving the index
  it has to avoid: however long the list, there is no result.\<close>

lemma redraw_stuck:
  "(\<forall>r \<in> set rs. floorIndex r groupCount = gi) \<Longrightarrow> redraw groupCount gi gi rs = None"
  by (induction rs) simp_all

subsection \<open>Shuffle and chunking\<close>

lemma shuffleLoop_length:
  "shuffleLoop k a rs = Some (a', rs') \<Longrightarrow> length a' = length a"
  by (induction k a rs rule: shuffleLoop.induct) (auto simp: Let_def)

lemma shuffleLoop_mset:
  "shuffleLoop k a rs = Some (a', rs') \<Longrightarrow> validRng rs \<Longrightarrow> k < length a
     \<Longrightarrow> mset a' = mset a \<and> validRng rs'"
proof (induction k a rs rule: shuffleLoop.induct)
  case (1 a rs)
  then show ?case by simp
next
  case (2 k a)
  then show ?case by simp
next
  case (3 k a r rs)
  let ?j = "floorIndex r (Suc k + 1)"
  let ?a = "a[Suc k := a ! ?j, ?j := a ! Suc k]"
  have r: "0 \<le> r" "r < 1" "validRng rs"
    using "3.prems"(2) by (simp_all add: validRng_Cons)
  have j: "?j < length a"
    using floorIndex_less[OF r(1,2), of "Suc k + 1"] "3.prems"(3) by simp
  have run: "shuffleLoop k ?a rs = Some (a', rs')"
    using "3.prems"(1) by (simp add: Let_def)
  have "mset a' = mset ?a \<and> validRng rs'"
    using "3.IH"[OF refl refl run r(3)] "3.prems"(3) by simp
  moreover have "mset ?a = mset a"
    using mset_swap[OF j "3.prems"(3)] by simp
  ultimately show ?case by simp
qed

lemma shuffle_mset:
  assumes "shuffle a rs = Some (a', rs')" "validRng rs"
  shows "mset a' = mset a \<and> validRng rs'"
proof (cases a)
  case Nil
  with assms show ?thesis by (simp add: shuffle_def)
next
  case (Cons x xs)
  then have "length a - 1 < length a" by simp
  with assms show ?thesis
    unfolding shuffle_def by (rule shuffleLoop_mset[rotated 2, rotated])
qed

lemma shuffle_length: "shuffle a rs = Some (a', rs') \<Longrightarrow> length a' = length a"
  unfolding shuffle_def by (rule shuffleLoop_length)

lemma concat_chunkLoop:
  "0 < s \<Longrightarrow> concat (chunkLoop i xs s acc) = concat acc @ drop i xs"
proof (induction i xs s acc rule: chunkLoop.induct)
  case (1 i xs s acc)
  show ?case
  proof (cases "i < length xs")
    case True
    have "take s (drop i xs) @ drop (i + s) xs = drop i xs"
      by (metis append_take_drop_id drop_drop add.commute)
    with True 1 show ?thesis
      by (subst chunkLoop.simps) simp
  next
    case False
    then show ?thesis by (subst chunkLoop.simps) simp
  qed
qed

lemma lengths_chunkLoop:
  "0 < s \<Longrightarrow> map length (chunkLoop i xs s acc)
     = map length acc @ replicate ((length xs - i) div s) s
        @ (if (length xs - i) mod s = 0 then [] else [(length xs - i) mod s])"
proof (induction i xs s acc rule: chunkLoop.induct)
  case (1 i xs s acc)
  let ?m = "length xs - i"
  show ?case
  proof (cases "i < length xs")
    case False
    then show ?thesis by (subst chunkLoop.simps) simp
  next
    case True
    have step: "chunkLoop i xs s acc = chunkLoop (i + s) xs s (acc @ [take s (drop i xs)])"
      using True "1.prems" by (subst chunkLoop.simps) simp
    have ih: "map length (chunkLoop (i + s) xs s (acc @ [take s (drop i xs)]))
        = map length acc @ [min ?m s] @ replicate ((?m - s) div s) s
            @ (if (?m - s) mod s = 0 then [] else [(?m - s) mod s])"
      using "1.IH" True "1.prems" by (simp add: min.commute)
    show ?thesis
    proof (cases "s \<le> ?m")
      case True
      then have "?m div s = Suc ((?m - s) div s)" "?m mod s = (?m - s) mod s"
        using "1.prems" by (simp_all add: le_div_geq le_mod_geq)
      with True show ?thesis unfolding step ih by simp
    next
      case False
      then have "?m div s = 0" "?m mod s = ?m" "?m - s = 0" "?m \<noteq> 0"
        using \<open>i < length xs\<close> by simp_all
      with False show ?thesis unfolding step ih by simp
    qed
  qed
qed

lemma concat_chunkGroups:
  "0 < groupSize \<Longrightarrow> chunkGroups xs groupSize = Some gs \<Longrightarrow> concat gs = xs"
  by (auto simp: chunkGroups_def concat_chunkLoop)

lemma lengths_chunkGroups:
  "0 < groupSize \<Longrightarrow> chunkGroups xs groupSize = Some gs \<Longrightarrow> map length gs
     = replicate (length xs div nat groupSize) (nat groupSize)
        @ (if length xs mod nat groupSize = 0 then [] else [length xs mod nat groupSize])"
  by (auto simp: chunkGroups_def lengths_chunkLoop)

subsection \<open>The swap and its revert\<close>

lemma map_length_update:
  "map length (gs[k := g']) = map length gs" if "length g' = length (gs ! k)"
proof (cases "k < length gs")
  case True
  then show ?thesis
    using that by (simp add: map_update list_update_same_conv)
next
  case False
  then have "gs[k := g'] = gs" by (simp add: list_update_beyond)
  then show ?thesis by (simp only:)
qed

lemma map_length_assignPair:
  "map length (assignPair gs gi i gj j x y) = map length gs"
  by (simp add: assignPair_def Let_def map_length_update)

lemma length_assignPair: "length (assignPair gs gi i gj j x y) = length gs"
  by (simp add: assignPair_def Let_def)

lemma mset_concat_update:
  "k < length gs \<Longrightarrow> mset (concat (gs[k := g'])) + mset (gs ! k) = mset (concat gs) + mset g'"
  by (induction gs arbitrary: k) (auto split: nat.splits)

lemma mset_list_update:
  "i < length l \<Longrightarrow> mset (l[i := v]) + {#l ! i#} = mset l + {#v#}"
  by (induction l arbitrary: i) (auto split: nat.splits)

lemma assignPair_swap_mset:
  assumes "gi < length gs" "gj < length gs" "i < length (gs ! gi)" "j < length (gs ! gj)"
  shows "mset (concat (assignPair gs gi i gj j (gs ! gj ! j) (gs ! gi ! i))) = mset (concat gs)"
proof (cases "gi = gj")
  case True
  let ?g = "gs ! gi"
  have "assignPair gs gi i gj j (gs ! gj ! j) (gs ! gi ! i) = gs[gi := ?g[i := ?g ! j, j := ?g ! i]]"
    using True assms by (simp add: assignPair_def Let_def)
  moreover have "mset (?g[i := ?g ! j, j := ?g ! i]) = mset ?g"
    using mset_swap[of j ?g i] assms True by simp
  ultimately show ?thesis
    using mset_concat_update[OF assms(1), of "?g[i := ?g ! j, j := ?g ! i]"] by simp
next
  case False
  let ?a = "gs ! gi ! i" and ?b = "gs ! gj ! j"
  let ?gs1 = "gs[gi := (gs ! gi)[i := ?b]]"
  let ?gs2 = "?gs1[gj := (gs ! gj)[j := ?a]]"
  have eq: "assignPair gs gi i gj j ?b ?a = ?gs2"
    using False by (simp add: assignPair_def Let_def)
  have 1: "mset (concat ?gs1) + mset (gs ! gi) = mset (concat gs) + mset ((gs ! gi)[i := ?b])"
    using assms(1) by (rule mset_concat_update)
  have 2: "mset (concat ?gs2) + mset (gs ! gj) = mset (concat ?gs1) + mset ((gs ! gj)[j := ?a])"
    using mset_concat_update[of gj ?gs1 "(gs ! gj)[j := ?a]"] assms(2) False by simp
  have 3: "mset ((gs ! gi)[i := ?b]) + {#?a#} = mset (gs ! gi) + {#?b#}"
    using assms(3) by (rule mset_list_update)
  have 4: "mset ((gs ! gj)[j := ?a]) + {#?b#} = mset (gs ! gj) + {#?a#}"
    using assms(4) by (rule mset_list_update)
  have "mset (concat ?gs2) = mset (concat gs)"
  proof (rule multiset_eqI)
    fix x
    show "count (mset (concat ?gs2)) x = count (mset (concat gs)) x"
      using arg_cong[OF 1, of "\<lambda>M. count M x"] arg_cong[OF 2, of "\<lambda>M. count M x"]
        arg_cong[OF 3, of "\<lambda>M. count M x"] arg_cong[OF 4, of "\<lambda>M. count M x"]
      by (simp split: if_splits)
  qed
  then show ?thesis by (simp only: eq)
qed

lemma assignPair_revert:
  assumes "gi < length gs" "gj < length gs" "i < length (gs ! gi)" "j < length (gs ! gj)"
    and "a = gs ! gi ! i" "b = gs ! gj ! j"
  shows "assignPair (assignPair gs gi i gj j b a) gi i gj j a b = gs"
proof (cases "gi = gj")
  case True
  have "(gs ! gi)[i := b, j := a, i := a, j := b] = gs ! gi"
    using assms True by (auto simp: list_eq_iff_nth_eq nth_list_update)
  with True assms show ?thesis
    by (simp add: assignPair_def Let_def list_update_same_conv)
next
  case False
  with assms show ?thesis
    by (simp add: assignPair_def Let_def list_update_swap[of gi gj] list_update_same_conv)
qed

subsection \<open>One round, and the loop\<close>

lemma pickGroups_valid:
  assumes "pickGroups gc rs = Some (gi, gj, rs')" "validRng rs" "0 < gc"
  shows "gi < gc \<and> gj < gc \<and> validRng rs'"
proof -
  from assms(1) obtain rs1 gj0 rs2 where
    1: "randomIndex gc rs = Some (gi, rs1)" and
    2: "randomIndex gc rs1 = Some (gj0, rs2)" and
    3: "(if 1 < gc then redraw gc gi gj0 rs2 else Some (gj0, rs2)) = Some (gj, rs')"
    by (auto simp: pickGroups_def bind_eq_Some_conv)
  from randomIndex_valid[OF 1 assms(2,3)] have gi: "gi < gc" "validRng rs1" by simp_all
  from randomIndex_valid[OF 2 gi(2) assms(3)] have gj0: "gj0 < gc" "validRng rs2" by simp_all
  have "gj < gc \<and> validRng rs'"
  proof (cases "1 < gc")
    case True
    with 3 have "redraw gc gi gj0 rs2 = Some (gj, rs')" by simp
    from redraw_valid[OF this gj0(2,1)] show ?thesis .
  next
    case False
    with 3 gj0 show ?thesis by simp
  qed
  with gi show ?thesis by simp
qed

lemma swapMembers_Some:
  assumes "swapMembers fp ts w temp gi gj st rs3 = Some (fl, st', rs')"
  obtains i rs4 j rs5 yes where
      "randomIndex (length (curGroups st ! gi)) rs3 = Some (i, rs4)"
      "randomIndex (length (curGroups st ! gj)) rs4 = Some (j, rs5)"
      "saysYes (totalScore (assignPair (curGroups st) gi i gj j
                  (curGroups st ! gj ! j) (curGroups st ! gi ! i)) fp ts w - curScore st)
         temp rs5 = Some (yes, rs')"
      "st' = settle st yes
          (assignPair (curGroups st) gi i gj j (curGroups st ! gj ! j) (curGroups st ! gi ! i))
          (totalScore (assignPair (curGroups st) gi i gj j
                  (curGroups st ! gj ! j) (curGroups st ! gi ! i)) fp ts w)
          (assignPair
             (assignPair (curGroups st) gi i gj j (curGroups st ! gj ! j) (curGroups st ! gi ! i))
             gi i gj j (curGroups st ! gi ! i) (curGroups st ! gj ! j))"
      "fl = (if bestScore st' = 0 then Break else Next)"
  using assms unfolding swapMembers_def Let_def
  by (auto simp: bind_eq_Some_conv)

lemma attempt_cases:
  assumes "attempt fp ts w attempts gc t st rs = Some (fl, st', rs')"
  obtains (skip) gi gj where "pickGroups gc rs = Some (gi, gj, rs')" "st' = st" "fl = Next"
  | (move) gi gj rs3 i rs4 j rs5 yes temp where
      "pickGroups gc rs = Some (gi, gj, rs3)"
      "curGroups st ! gi \<noteq> []" "curGroups st ! gj \<noteq> []"
      "randomIndex (length (curGroups st ! gi)) rs3 = Some (i, rs4)"
      "randomIndex (length (curGroups st ! gj)) rs4 = Some (j, rs5)"
      "saysYes (totalScore (assignPair (curGroups st) gi i gj j
                  (curGroups st ! gj ! j) (curGroups st ! gi ! i)) fp ts w - curScore st)
         temp rs5 = Some (yes, rs')"
      "st' = settle st yes
          (assignPair (curGroups st) gi i gj j (curGroups st ! gj ! j) (curGroups st ! gi ! i))
          (totalScore (assignPair (curGroups st) gi i gj j
                  (curGroups st ! gj ! j) (curGroups st ! gi ! i)) fp ts w)
          (assignPair
             (assignPair (curGroups st) gi i gj j (curGroups st ! gj ! j) (curGroups st ! gi ! i))
             gi i gj j (curGroups st ! gi ! i) (curGroups st ! gj ! j))"
      "fl = (if bestScore st' = 0 then Break else Next)"
proof -
  define temp where
    "temp = 3.0 + (0.2 - 3.0) * (real t / real_of_int (max 1 (attempts - 1)))"
  have "attempt fp ts w attempts gc t st rs =
      pickGroups gc rs \<bind> (\<lambda>(gi, gj, rs3).
        if length (curGroups st ! gi) = 0 \<or> length (curGroups st ! gj) = 0
        then Some (Next, st, rs3)
        else swapMembers fp ts w temp gi gj st rs3)"
    unfolding attempt_def Let_def temp_def ..
  with assms obtain gi gj rs3 where
    pg: "pickGroups gc rs = Some (gi, gj, rs3)" and
    rest: "(if curGroups st ! gi = [] \<or> curGroups st ! gj = []
        then Some (Next, st, rs3)
        else swapMembers fp ts w temp gi gj st rs3) = Some (fl, st', rs')"
    by (auto simp: bind_eq_Some_conv)
  show thesis
  proof (cases "curGroups st ! gi = [] \<or> curGroups st ! gj = []")
    case True
    with rest pg show ?thesis by (intro skip[of gi gj]) simp_all
  next
    case False
    with rest have sm: "swapMembers fp ts w temp gi gj st rs3 = Some (fl, st', rs')"
      by simp
    from False have ne: "curGroups st ! gi \<noteq> []" "curGroups st ! gj \<noteq> []" by simp_all
    from sm show ?thesis
      by (rule swapMembers_Some) (rule move[OF pg ne])
  qed
qed

lemma settle_curGroups:
  "curGroups (settle st yes swapped newScore reverted) = (if yes then swapped else reverted)"
  by (simp add: settle_def Let_def)

lemma settle_bestGroups:
  "bestGroups (settle st yes swapped newScore reverted) = bestGroups st
   \<or> bestGroups (settle st yes swapped newScore reverted) = swapped"
  by (simp add: settle_def Let_def)

lemma settle_best:
  "bestScore (settle st yes swapped newScore reverted) < bestScore st
   \<or> (bestScore (settle st yes swapped newScore reverted) = bestScore st
      \<and> bestGroups (settle st yes swapped newScore reverted) = bestGroups st)"
  by (simp add: settle_def Let_def)

lemma searchLoop_invariant:
  assumes step: "\<And>t st rs fl st' rs'.
      attempt fp ts w att gc t st rs = Some (fl, st', rs') \<Longrightarrow> P st rs \<Longrightarrow> P st' rs'"
    and run: "searchLoop fp ts w att gc t st rs = Some (st', rs')"
    and init: "P st rs"
  shows "P st' rs'"
  using run init step
proof (induction fp ts w att gc t st rs rule: searchLoop.induct)
  case (1 fp ts w att gc t st rs)
  show ?case
  proof (cases "int t < att")
    case False
    with "1.prems" show ?thesis by (simp add: searchLoop.simps)
  next
    case True
    from "1.prems"(1) True obtain fl st1 rs1 where
      a: "attempt fp ts w att gc t st rs = Some (fl, st1, rs1)"
      by (subst (asm) searchLoop.simps) (auto split: option.splits)
    have p1: "P st1 rs1"
      using a "1.prems"(2) by (rule "1.prems"(3))
    show ?thesis
    proof (cases fl)
      case Next
      with "1.prems"(1) True a have
        "searchLoop fp ts w att gc (Suc t) st1 rs1 = Some (st', rs')"
        by (subst (asm) searchLoop.simps) simp
      from "1.IH"[OF True a refl Next refl this p1 "1.prems"(3)] show ?thesis by simp
    next
      case Break
      with "1.prems"(1) True a have "st' = st1" "rs' = rs1"
        by (subst (asm) searchLoop.simps, simp)+
      with p1 show ?thesis by simp
    qed
  qed
qed

lemma attempt_entities:
  assumes run: "attempt fp ts w att gc t st rs = Some (fl, st', rs')"
    and inv: "validRng rs \<and> 0 < gc \<and> length (curGroups st) = gc
      \<and> mset (concat (curGroups st)) = M \<and> mset (concat (bestGroups st)) = M"
  shows "validRng rs' \<and> 0 < gc \<and> length (curGroups st') = gc
      \<and> mset (concat (curGroups st')) = M \<and> mset (concat (bestGroups st')) = M"
  using run
proof (cases rule: attempt_cases)
  case (skip gi gj)
  with inv pickGroups_valid[OF skip(1)] show ?thesis by simp
next
  case (move gi gj rs3 i rs4 j rs5 yes temp)
  let ?gs = "curGroups st"
  let ?sw = "assignPair ?gs gi i gj j (?gs ! gj ! j) (?gs ! gi ! i)"
  from inv pickGroups_valid[OF move(1)] have g: "gi < length ?gs" "gj < length ?gs" "validRng rs3"
    by simp_all
  from randomIndex_valid[OF move(4) g(3)] move(2) have i: "i < length (?gs ! gi)" "validRng rs4"
    by simp_all
  from randomIndex_valid[OF move(5) i(2)] move(3) have j: "j < length (?gs ! gj)" "validRng rs5"
    by simp_all
  from saysYes_valid[OF move(6) j(2)] have v: "validRng rs'" .
  have sw: "mset (concat ?sw) = M"
    using assignPair_swap_mset[OF g(1,2) i(1) j(1)] inv by simp
  have rev: "assignPair ?sw gi i gj j (?gs ! gi ! i) (?gs ! gj ! j) = ?gs"
    using g(1,2) i(1) j(1) by (rule assignPair_revert) simp_all
  have cur: "curGroups st' = ?sw \<or> curGroups st' = ?gs"
    unfolding move(7) rev by (simp add: settle_curGroups)
  have best: "bestGroups st' = bestGroups st \<or> bestGroups st' = ?sw"
    unfolding move(7) by (rule settle_bestGroups)
  from cur sw inv have "length (curGroups st') = gc \<and> mset (concat (curGroups st')) = M"
    by (auto simp: length_assignPair)
  moreover from best sw inv have "mset (concat (bestGroups st')) = M" by auto
  ultimately show ?thesis using v inv by simp
qed

lemma attempt_lengths:
  assumes run: "attempt fp ts w att gc t st rs = Some (fl, st', rs')"
    and inv: "map length (curGroups st) = L \<and> map length (bestGroups st) = L"
  shows "map length (curGroups st') = L \<and> map length (bestGroups st') = L"
  using run
proof (cases rule: attempt_cases)
  case (skip gi gj)
  with inv show ?thesis by simp
next
  case (move gi gj rs3 i rs4 j rs5 yes temp)
  have cur: "map length (curGroups st') = L"
    unfolding move(7) using inv by (simp add: settle_curGroups map_length_assignPair)
  have "bestGroups st' = bestGroups st
      \<or> bestGroups st' = assignPair (curGroups st) gi i gj j
            (curGroups st ! gj ! j) (curGroups st ! gi ! i)"
    unfolding move(7) by (rule settle_bestGroups)
  then have "map length (bestGroups st') = L"
    using inv by (auto simp: map_length_assignPair)
  with cur show ?thesis by simp
qed

lemma attempt_best:
  assumes "attempt fp ts w att gc t st rs = Some (fl, st', rs')"
  shows "bestScore st' < bestScore st
     \<or> (bestScore st' = bestScore st \<and> bestGroups st' = bestGroups st)"
  using assms
proof (cases rule: attempt_cases)
  case (skip gi gj)
  then show ?thesis by simp
next
  case (move gi gj rs3 i rs4 j rs5 yes temp)
  show ?thesis unfolding move(7) by (rule settle_best)
qed

lemma generateGroupsOptimized_Some:
  assumes "generateGroupsOptimized students groupSize fp attempts w rs = Some (Inr res)"
    and "students \<noteq> []" "2 \<le> groupSize"
  obtains shuffled rs1 first st rs2 where
    "shuffle students rs = Some (shuffled, rs1)"
    "chunkGroups shuffled groupSize = Some first"
    "searchLoop fp groupSize w attempts (length first) 0
       (initialState first groupSize fp w) rs1 = Some (st, rs2)"
    "groups res = bestGroups st" "score res = bestScore st"
  using assms unfolding generateGroupsOptimized_def Let_def
  by (auto simp: bind_eq_Some_conv initialState_def Let_def)

lemma initialState_simps:
  "curGroups (initialState first groupSize fp w) = first"
  "bestGroups (initialState first groupSize fp w) = first"
  "bestScore (initialState first groupSize fp w) = totalScore first fp groupSize w"
  by (simp_all add: initialState_def Let_def)

subsection \<open>The random source as a bound on the run\<close>

text \<open>
  A result, once there, does not depend on the values that are left over: the same call
  with more values returns the same. So \<open>None\<close> only ever says that the list was too
  short for the run.
\<close>

lemma randomIndex_append:
  "randomIndex n rs = Some (k, rs') \<Longrightarrow> randomIndex n (rs @ e) = Some (k, rs' @ e)"
  by (cases rs) auto

lemma redraw_append:
  "redraw n gi gj rs = Some (k, rs') \<Longrightarrow> redraw n gi gj (rs @ e) = Some (k, rs' @ e)"
proof (induction n gi gj rs rule: redraw.induct)
  case (1 n gi gj)
  then show ?case by (cases e) (auto split: if_splits)
next
  case (2 n gi gj r rs)
  then show ?case by (auto split: if_splits)
qed

lemma saysYes_append:
  "saysYes d temp rs = Some (y, rs') \<Longrightarrow> saysYes d temp (rs @ e) = Some (y, rs' @ e)"
  by (cases rs; cases e) (auto split: if_splits)

lemma shuffleLoop_append:
  "shuffleLoop k a rs = Some (a', rs') \<Longrightarrow> shuffleLoop k a (rs @ e) = Some (a', rs' @ e)"
  by (induction k a rs rule: shuffleLoop.induct) (auto simp: Let_def)

lemma pickGroups_append:
  assumes "pickGroups gc rs = Some (gi, gj, rs')"
  shows "pickGroups gc (rs @ e) = Some (gi, gj, rs' @ e)"
proof -
  from assms obtain rs1 gj0 rs2 where
    1: "randomIndex gc rs = Some (gi, rs1)" and
    2: "randomIndex gc rs1 = Some (gj0, rs2)" and
    3: "(if 1 < gc then redraw gc gi gj0 rs2 else Some (gj0, rs2)) = Some (gj, rs')"
    by (auto simp: pickGroups_def bind_eq_Some_conv)
  have "(if 1 < gc then redraw gc gi gj0 (rs2 @ e) else Some (gj0, rs2 @ e)) = Some (gj, rs' @ e)"
    using 3 by (auto simp: redraw_append split: if_splits)
  with randomIndex_append[OF 1, of e] randomIndex_append[OF 2, of e] show ?thesis
    by (simp add: pickGroups_def)
qed

lemma swapMembers_append:
  assumes "swapMembers fp ts w temp gi gj st rs = Some (fl, st', rs')"
  shows "swapMembers fp ts w temp gi gj st (rs @ e) = Some (fl, st', rs' @ e)"
  using assms
proof (rule swapMembers_Some)
  fix i rs4 j rs5 yes
  assume 1: "randomIndex (length (curGroups st ! gi)) rs = Some (i, rs4)"
    and 2: "randomIndex (length (curGroups st ! gj)) rs4 = Some (j, rs5)"
    and 3: "saysYes (totalScore (assignPair (curGroups st) gi i gj j
                  (curGroups st ! gj ! j) (curGroups st ! gi ! i)) fp ts w - curScore st)
         temp rs5 = Some (yes, rs')"
    and 4: "st' = settle st yes
          (assignPair (curGroups st) gi i gj j (curGroups st ! gj ! j) (curGroups st ! gi ! i))
          (totalScore (assignPair (curGroups st) gi i gj j
                  (curGroups st ! gj ! j) (curGroups st ! gi ! i)) fp ts w)
          (assignPair
             (assignPair (curGroups st) gi i gj j (curGroups st ! gj ! j) (curGroups st ! gi ! i))
             gi i gj j (curGroups st ! gi ! i) (curGroups st ! gj ! j))"
    and 5: "fl = (if bestScore st' = 0 then Break else Next)"
  show ?thesis
    using randomIndex_append[OF 1, of e] randomIndex_append[OF 2, of e]
      saysYes_append[OF 3, of e] 4 5
    by (simp add: swapMembers_def Let_def)
qed

lemma attempt_append:
  assumes "attempt fp ts w att gc t st rs = Some (fl, st', rs')"
  shows "attempt fp ts w att gc t st (rs @ e) = Some (fl, st', rs' @ e)"
proof -
  define temp where
    "temp = 3.0 + (0.2 - 3.0) * (real t / real_of_int (max 1 (att - 1)))"
  have eq: "attempt fp ts w att gc t st rs0 =
      pickGroups gc rs0 \<bind> (\<lambda>(gi, gj, rs3).
        if length (curGroups st ! gi) = 0 \<or> length (curGroups st ! gj) = 0
        then Some (Next, st, rs3)
        else swapMembers fp ts w temp gi gj st rs3)" for rs0
    unfolding attempt_def Let_def temp_def ..
  from assms obtain gi gj rs3 where
    pg: "pickGroups gc rs = Some (gi, gj, rs3)" and
    rest: "(if curGroups st ! gi = [] \<or> curGroups st ! gj = []
        then Some (Next, st, rs3)
        else swapMembers fp ts w temp gi gj st rs3) = Some (fl, st', rs')"
    unfolding eq by (auto simp: bind_eq_Some_conv)
  have "(if curGroups st ! gi = [] \<or> curGroups st ! gj = []
        then Some (Next, st, rs3 @ e)
        else swapMembers fp ts w temp gi gj st (rs3 @ e)) = Some (fl, st', rs' @ e)"
    using rest by (auto simp: swapMembers_append split: if_splits)
  with pickGroups_append[OF pg, of e] show ?thesis
    unfolding eq by simp
qed

lemma searchLoop_append:
  "searchLoop fp ts w att gc t st rs = Some (st', rs')
     \<Longrightarrow> searchLoop fp ts w att gc t st (rs @ e) = Some (st', rs' @ e)"
proof (induction fp ts w att gc t st rs rule: searchLoop.induct)
  case (1 fp ts w att gc t st rs)
  show ?case
  proof (cases "int t < att")
    case False
    with "1.prems" show ?thesis by (simp add: searchLoop.simps)
  next
    case True
    from "1.prems" True obtain fl st1 rs1 where
      a: "attempt fp ts w att gc t st rs = Some (fl, st1, rs1)"
      by (subst (asm) searchLoop.simps) (auto split: option.splits)
    note a' = attempt_append[OF a, of e]
    show ?thesis
    proof (cases fl)
      case Next
      with "1.prems" True a have
        "searchLoop fp ts w att gc (Suc t) st1 rs1 = Some (st', rs')"
        by (subst (asm) searchLoop.simps) simp
      from "1.IH"[OF True a refl Next refl this] True a' Next show ?thesis
        by (subst searchLoop.simps) simp
    next
      case Break
      with "1.prems" True a have "st' = st1" "rs' = rs1"
        by (subst (asm) searchLoop.simps, simp)+
      with True a' Break show ?thesis
        by (subst searchLoop.simps) simp
    qed
  qed
qed

lemma generateGroupsOptimized_more_draws:
  assumes "generateGroupsOptimized students groupSize fp attempts w rs = Some r"
  shows "generateGroupsOptimized students groupSize fp attempts w (rs @ e) = Some r"
proof (cases "groupSize < 2 \<or> students = []")
  case True
  with assms show ?thesis by (auto simp: generateGroupsOptimized_def)
next
  case False
  with assms obtain shuffled rs1 first st rs2 where
    sh: "shuffle students rs = Some (shuffled, rs1)" and
    ch: "chunkGroups shuffled groupSize = Some first" and
    loop: "searchLoop fp groupSize w attempts
       (length (curGroups (initialState first groupSize fp w))) 0
       (initialState first groupSize fp w) rs1 = Some (st, rs2)" and
    r: "r = Inr \<lparr>groups = bestGroups st, score = bestScore st\<rparr>"
    unfolding generateGroupsOptimized_def Let_def
    by (auto simp: bind_eq_Some_conv)
  have "shuffle students (rs @ e) = Some (shuffled, rs1 @ e)"
    using sh unfolding shuffle_def by (rule shuffleLoop_append)
  with searchLoop_append[OF loop, of e] ch r False show ?thesis
    by (simp add: generateGroupsOptimized_def Let_def)
qed

subsection \<open>Every run can be completed\<close>

text \<open>
  Whatever values the random source has given so far, there are further values, each in
  the unit interval, with which the computation returns: a value is there whenever one is
  asked for, and the loop \<open>while (gj === gi)\<close> ends as soon as a value selects another
  group, which one of \<open>0\<close> and \<open>1 / 2\<close> does when there are two groups or more. This holds
  for every budget, the rounds being counted down by \<open>attempts - t\<close>.
\<close>

lemma validRng_Nil: "validRng []"
  by (simp add: validRng_def)

lemma validRng_append: "validRng (a @ b) \<longleftrightarrow> validRng a \<and> validRng b"
  by (auto simp: validRng_def)

lemma randomIndex_extends:
  "\<exists>e k rs'. validRng e \<and> randomIndex n (rs @ e) = Some (k, rs')"
proof (cases rs)
  case Nil
  have "validRng [0]" by (simp add: validRng_def)
  moreover have "randomIndex n ([] @ [0]) = Some (floorIndex 0 n, [])" by simp
  ultimately show ?thesis unfolding Nil by blast
next
  case (Cons r rs0)
  have "randomIndex n ((r # rs0) @ []) = Some (floorIndex r n, rs0)" by simp
  with validRng_Nil show ?thesis unfolding Cons by blast
qed

lemma saysYes_extends:
  "\<exists>e y rs'. validRng e \<and> saysYes d temp (rs @ e) = Some (y, rs')"
proof (cases rs)
  case Nil
  have "validRng [0]" by (simp add: validRng_def)
  moreover have "\<exists>y rs'. saysYes d temp ([] @ [0]) = Some (y, rs')" by auto
  ultimately show ?thesis unfolding Nil by blast
next
  case (Cons r rs0)
  have "\<exists>y rs'. saysYes d temp ((r # rs0) @ []) = Some (y, rs')" by auto
  with validRng_Nil show ?thesis unfolding Cons by blast
qed

lemma other_index:
  assumes "1 < gc"
  shows "\<exists>r. 0 \<le> r \<and> r < 1 \<and> floorIndex r gc \<noteq> gi"
proof (cases "gi = 0")
  case True
  have "1 \<le> real gc / 2" using assms by simp
  then have "1 \<le> \<lfloor>real gc / 2\<rfloor>" by linarith
  then have "floorIndex (1 / 2) gc \<noteq> 0" by (simp add: floorIndex_def)
  with True show ?thesis by (intro exI[of _ "1 / 2"]) simp
next
  case False
  have "floorIndex 0 gc = 0" by (simp add: floorIndex_def)
  with False show ?thesis by (intro exI[of _ 0]) simp
qed

lemma redraw_extends:
  assumes "1 < gc"
  shows "\<exists>e k rs'. validRng e \<and> redraw gc gi gj (rs @ e) = Some (k, rs')"
proof (induction rs arbitrary: gj)
  case Nil
  show ?case
  proof (cases "gj = gi")
    case False
    then have "redraw gc gi gj ([] @ []) = Some (gj, [])" by simp
    with validRng_Nil show ?thesis by blast
  next
    case True
    from other_index[OF assms, of gi] obtain r where
      r: "0 \<le> r" "r < 1" "floorIndex r gc \<noteq> gi" by blast
    then have "validRng [r]" by (simp add: validRng_def)
    moreover have "redraw gc gi gj ([] @ [r]) = Some (floorIndex r gc, [])"
      using True r(3) by simp
    ultimately show ?thesis by blast
  qed
next
  case (Cons r rs)
  show ?case
  proof (cases "gj = gi")
    case False
    then have "redraw gc gi gj ((r # rs) @ []) = Some (gj, r # rs)" by simp
    with validRng_Nil show ?thesis by blast
  next
    case True
    from Cons[of "floorIndex r gc"] obtain e k rs' where
      "validRng e" "redraw gc gi (floorIndex r gc) (rs @ e) = Some (k, rs')" by blast
    moreover from this True have "redraw gc gi gj ((r # rs) @ e) = Some (k, rs')" by simp
    ultimately show ?thesis by blast
  qed
qed

lemma shuffleLoop_extends:
  "\<exists>e a' rs'. validRng e \<and> shuffleLoop k a (rs @ e) = Some (a', rs')"
proof (induction k arbitrary: a rs)
  case 0
  have "shuffleLoop 0 a (rs @ []) = Some (a, rs)" by simp
  with validRng_Nil show ?case by blast
next
  case (Suc k)
  show ?case
  proof (cases rs)
    case Nil
    let ?a = "a[Suc k := a ! floorIndex 0 (Suc k + 1), floorIndex 0 (Suc k + 1) := a ! Suc k]"
    from Suc[of ?a "[]"] obtain e a' rs' where
      e: "validRng e" "shuffleLoop k ?a ([] @ e) = Some (a', rs')" by blast
    have "validRng (0 # e)" using e(1) by (simp add: validRng_def)
    moreover have "shuffleLoop (Suc k) a ([] @ 0 # e) = Some (a', rs')"
      using e(2) by (simp add: Let_def)
    ultimately show ?thesis unfolding Nil by blast
  next
    case (Cons r rs0)
    let ?a = "a[Suc k := a ! floorIndex r (Suc k + 1), floorIndex r (Suc k + 1) := a ! Suc k]"
    from Suc[of ?a rs0] obtain e a' rs' where
      e: "validRng e" "shuffleLoop k ?a (rs0 @ e) = Some (a', rs')" by blast
    have "shuffleLoop (Suc k) a ((r # rs0) @ e) = Some (a', rs')"
      using e(2) by (simp add: Let_def)
    with e(1) show ?thesis unfolding Cons by blast
  qed
qed

lemma pickGroups_extends:
  "\<exists>e gi gj rs'. validRng e \<and> pickGroups gc (rs @ e) = Some (gi, gj, rs')"
proof -
  from randomIndex_extends[of gc rs] obtain e1 gi rs1 where
    1: "validRng e1" "randomIndex gc (rs @ e1) = Some (gi, rs1)" by blast
  from randomIndex_extends[of gc rs1] obtain e2 gj0 rs2 where
    2: "validRng e2" "randomIndex gc (rs1 @ e2) = Some (gj0, rs2)" by blast
  have "\<exists>e3 gj rs3. validRng e3
      \<and> (if 1 < gc then redraw gc gi gj0 (rs2 @ e3) else Some (gj0, rs2 @ e3)) = Some (gj, rs3)"
  proof (cases "1 < gc")
    case True
    with redraw_extends[OF True, of gi gj0 rs2] show ?thesis by simp
  next
    case False
    with validRng_Nil show ?thesis by auto
  qed
  then obtain e3 gj rs3 where
    3: "validRng e3"
      "(if 1 < gc then redraw gc gi gj0 (rs2 @ e3) else Some (gj0, rs2 @ e3)) = Some (gj, rs3)"
    by blast
  have a: "randomIndex gc (rs @ e1 @ e2 @ e3) = Some (gi, rs1 @ e2 @ e3)"
    using randomIndex_append[OF 1(2), of "e2 @ e3"] by simp
  have b: "randomIndex gc (rs1 @ e2 @ e3) = Some (gj0, rs2 @ e3)"
    using randomIndex_append[OF 2(2), of e3] by simp
  have "pickGroups gc (rs @ e1 @ e2 @ e3) = Some (gi, gj, rs3)"
    using a b 3(2) by (simp add: pickGroups_def)
  moreover have "validRng (e1 @ e2 @ e3)"
    using 1(1) 2(1) 3(1) by (simp add: validRng_append)
  ultimately show ?thesis by blast
qed

lemma swapMembers_extends:
  "\<exists>e fl st' rs'. validRng e
     \<and> swapMembers fp ts w temp gi gj st (rs @ e) = Some (fl, st', rs')"
proof -
  let ?g1 = "curGroups st ! gi" and ?g2 = "curGroups st ! gj"
  from randomIndex_extends[of "length ?g1" rs] obtain e1 i rs4 where
    1: "validRng e1" "randomIndex (length ?g1) (rs @ e1) = Some (i, rs4)" by blast
  from randomIndex_extends[of "length ?g2" rs4] obtain e2 j rs5 where
    2: "validRng e2" "randomIndex (length ?g2) (rs4 @ e2) = Some (j, rs5)" by blast
  let ?d = "totalScore (assignPair (curGroups st) gi i gj j (?g2 ! j) (?g1 ! i)) fp ts w
              - curScore st"
  from saysYes_extends[of ?d temp rs5] obtain e3 yes rs6 where
    3: "validRng e3" "saysYes ?d temp (rs5 @ e3) = Some (yes, rs6)" by blast
  have a: "randomIndex (length ?g1) (rs @ e1 @ e2 @ e3) = Some (i, rs4 @ e2 @ e3)"
    using randomIndex_append[OF 1(2), of "e2 @ e3"] by simp
  have b: "randomIndex (length ?g2) (rs4 @ e2 @ e3) = Some (j, rs5 @ e3)"
    using randomIndex_append[OF 2(2), of e3] by simp
  have "\<exists>fl st' rs'. swapMembers fp ts w temp gi gj st (rs @ e1 @ e2 @ e3) = Some (fl, st', rs')"
    using a b 3(2) by (simp add: swapMembers_def Let_def)
  moreover have "validRng (e1 @ e2 @ e3)"
    using 1(1) 2(1) 3(1) by (simp add: validRng_append)
  ultimately show ?thesis by blast
qed

lemma attempt_extends:
  "\<exists>e fl st' rs'. validRng e
     \<and> attempt fp ts w att gc t st (rs @ e) = Some (fl, st', rs')"
proof -
  define temp where
    "temp = 3.0 + (0.2 - 3.0) * (real t / real_of_int (max 1 (att - 1)))"
  have eq: "attempt fp ts w att gc t st rs0 =
      pickGroups gc rs0 \<bind> (\<lambda>(gi, gj, rs3).
        if length (curGroups st ! gi) = 0 \<or> length (curGroups st ! gj) = 0
        then Some (Next, st, rs3)
        else swapMembers fp ts w temp gi gj st rs3)" for rs0
    unfolding attempt_def Let_def temp_def ..
  from pickGroups_extends[of gc rs] obtain e1 gi gj rs3 where
    1: "validRng e1" "pickGroups gc (rs @ e1) = Some (gi, gj, rs3)" by blast
  from swapMembers_extends[of fp ts w temp gi gj st rs3] obtain e2 fl st' rs' where
    2: "validRng e2" "swapMembers fp ts w temp gi gj st (rs3 @ e2) = Some (fl, st', rs')"
    by blast
  have a: "pickGroups gc (rs @ e1 @ e2) = Some (gi, gj, rs3 @ e2)"
    using pickGroups_append[OF 1(2), of e2] by simp
  have "\<exists>fl st' rs'. attempt fp ts w att gc t st (rs @ e1 @ e2) = Some (fl, st', rs')"
    unfolding eq using a 2(2) by simp
  moreover have "validRng (e1 @ e2)"
    using 1(1) 2(1) by (simp add: validRng_append)
  ultimately show ?thesis by blast
qed

lemma searchLoop_extends:
  "\<exists>e st' rs'. validRng e
     \<and> searchLoop fp ts w att gc t st (rs @ e) = Some (st', rs')"
proof (induction "nat (att - int t)" arbitrary: t st rs)
  case 0
  then have "\<not> int t < att" by simp
  then have "searchLoop fp ts w att gc t st (rs @ []) = Some (st, rs)"
    by (simp add: searchLoop.simps)
  with validRng_Nil show ?case by blast
next
  case (Suc n)
  then have lt: "int t < att" by simp
  from attempt_extends[of fp ts w att gc t st rs] obtain e1 fl st1 rs1 where
    1: "validRng e1" "attempt fp ts w att gc t st (rs @ e1) = Some (fl, st1, rs1)" by blast
  show ?case
  proof (cases fl)
    case Break
    with 1(2) lt have "searchLoop fp ts w att gc t st (rs @ e1) = Some (st1, rs1)"
      by (subst searchLoop.simps) simp
    with 1(1) show ?thesis by blast
  next
    case Next
    have "n = nat (att - int (Suc t))" using Suc.hyps(2) by simp
    from Suc.hyps(1)[OF this, of st1 rs1] obtain e2 st' rs' where
      2: "validRng e2" "searchLoop fp ts w att gc (Suc t) st1 (rs1 @ e2) = Some (st', rs')"
      by blast
    have "attempt fp ts w att gc t st (rs @ e1 @ e2) = Some (fl, st1, rs1 @ e2)"
      using attempt_append[OF 1(2), of e2] by simp
    with 2(2) lt Next have "searchLoop fp ts w att gc t st (rs @ e1 @ e2) = Some (st', rs')"
      by (subst searchLoop.simps) simp
    moreover have "validRng (e1 @ e2)" using 1(1) 2(1) by (simp add: validRng_append)
    ultimately show ?thesis by blast
  qed
qed

lemma generateGroupsOptimized_extends:
  assumes "2 \<le> groupSize"
  shows "\<exists>e res. validRng e
     \<and> generateGroupsOptimized students groupSize fp attempts w (rs @ e) = Some (Inr res)"
proof (cases "students = []")
  case True
  with assms have "\<exists>res. generateGroupsOptimized students groupSize fp attempts w (rs @ [])
      = Some (Inr res)"
    by (simp add: generateGroupsOptimized_def)
  with validRng_Nil show ?thesis by blast
next
  case False
  from shuffleLoop_extends[of "length students - 1" students rs] obtain e1 shuffled rs1 where
    1: "validRng e1" "shuffle students (rs @ e1) = Some (shuffled, rs1)"
    unfolding shuffle_def by blast
  from assms obtain first where ch: "chunkGroups shuffled groupSize = Some first"
    by (simp add: chunkGroups_def)
  let ?st0 = "initialState first groupSize fp w"
  from searchLoop_extends[of fp groupSize w attempts "length (curGroups ?st0)" 0 ?st0 rs1]
  obtain e2 st rs2 where
    2: "validRng e2"
      "searchLoop fp groupSize w attempts (length (curGroups ?st0)) 0 ?st0 (rs1 @ e2)
         = Some (st, rs2)"
    by blast
  have "shuffle students (rs @ e1 @ e2) = Some (shuffled, rs1 @ e2)"
    using shuffleLoop_append[OF 1(2)[unfolded shuffle_def], of e2] by (simp add: shuffle_def)
  with ch 2(2) False assms have
    "\<exists>res. generateGroupsOptimized students groupSize fp attempts w (rs @ e1 @ e2)
       = Some (Inr res)"
    by (simp add: generateGroupsOptimized_def Let_def)
  moreover have "validRng (e1 @ e2)" using 1(1) 2(1) by (simp add: validRng_append)
  ultimately show ?thesis by blast
qed

subsection \<open>The two example runs\<close>

lemma exp_minus_ten: "\<not> (1 / 2 < exp (- 10 :: real))"
proof -
  have "1 + 10 \<le> exp (10 :: real)" by (rule exp_ge_add_one_self)
  then have "exp (- 10 :: real) \<le> 1 / 11"
    by (simp add: exp_minus inverse_eq_divide field_simps)
  then show ?thesis by simp
qed

lemma example_shuffle: "shuffle exStudents exDraws
    = Some (exStudents, [0, 1 / 2, 1 / 2, 0,  0, 1 / 2, 1 / 2, 0, 1 / 2,  0, 1 / 2, 1 / 2, 0, 0])"
  by (simp add: shuffle_def exStudents_def exDraws_def floorIndex_def Let_def)

lemma example_run:
  "generateGroupsOptimized exStudents 2 {} 3 defaultWeights exDraws
     = Some (Inr \<lparr>groups = [[stA, stB], [stC, stD]], score = 6\<rparr>)"
  using exp_minus_ten
  by (simp add: Let_def generateGroupsOptimized_def shuffle_def floorIndex_def initialState_def
      chunkGroups_def attempt_def assignPair_def chunkLoop.simps searchLoop.simps pickGroups_def
      swapMembers_def settle_def totalScore_def groupScore_def countBy_def orZero_def
      exchangeKey_def stA_def stB_def stC_def stD_def defaultWeights_def pairKey_def
      exStudents_def exDraws_def)

lemma example_first:
  "chunkGroups exStudents 2 = Some [[stA, stC], [stB, stD]]
   \<and> totalScore [[stA, stC], [stB, stD]] {} 2 defaultWeights = 22"
  by (simp add: Let_def chunkGroups_def chunkLoop.simps totalScore_def groupScore_def countBy_def
      orZero_def exchangeKey_def stA_def stB_def stC_def stD_def defaultWeights_def pairKey_def
      exStudents_def)

lemma small_run:
  "generateGroupsOptimized smallStudents 2 {} 1 defaultWeights smallDraws
     = Some (Inr \<lparr>groups = [[stC, stB], [stA]], score = 7\<rparr>)"
  by (simp add: Let_def generateGroupsOptimized_def shuffle_def floorIndex_def initialState_def
      chunkGroups_def attempt_def assignPair_def chunkLoop.simps searchLoop.simps pickGroups_def
      swapMembers_def settle_def totalScore_def groupScore_def countBy_def orZero_def
      exchangeKey_def stA_def stB_def stC_def stD_def defaultWeights_def pairKey_def
      smallStudents_def smallDraws_def)

lemma validRng_exDraws: "validRng exDraws"
  by (simp add: validRng_def exDraws_def)

text \<open>
  And a source on which the second run never returns: with the value zero throughout,
  both groups picked are the first, and \<open>while (gj === gi)\<close> goes on for as long as there
  are values.
\<close>

lemma constant_source_no_result:
  "generateGroupsOptimized smallStudents 2 fp 1 w (replicate k 0) = None"
proof -
  consider "k = 0" | "k = Suc 0" | "k = Suc (Suc 0)" | "k = Suc (Suc (Suc 0))"
    | m where "k = Suc (Suc (Suc (Suc m)))"
    by (metis not0_implies_Suc)
  then show ?thesis
  proof cases
    case 5
    have "redraw n 0 0 (replicate m (0::real)) = None" for n
      by (rule redraw_stuck) (simp add: floorIndex_def)
    then show ?thesis
      unfolding 5
      by (simp add: generateGroupsOptimized_def smallStudents_def shuffle_def floorIndex_def
          Let_def initialState_def chunkGroups_def chunkLoop.simps searchLoop.simps attempt_def
          pickGroups_def)
  qed (simp_all add: generateGroupsOptimized_def smallStudents_def shuffle_def floorIndex_def
          Let_def initialState_def chunkGroups_def chunkLoop.simps searchLoop.simps attempt_def
          pickGroups_def)
qed

section \<open>The result of the search\<close>

lemma generateGroupsOptimized_entities:
  assumes "2 \<le> groupSize" "validRng rs"
    and run: "generateGroupsOptimized students groupSize fp attempts w rs = Some (Inr res)"
  shows "mset (concat (groups res)) = mset students"
proof (cases "students = []")
  case True
  with run assms(1) show ?thesis by (auto simp: generateGroupsOptimized_def)
next
  case False
  from run False assms(1) obtain shuffled rs1 first st rs2 where
    sh: "shuffle students rs = Some (shuffled, rs1)" and
    ch: "chunkGroups shuffled groupSize = Some first" and
    loop: "searchLoop fp groupSize w attempts (length first) 0
       (initialState first groupSize fp w) rs1 = Some (st, rs2)" and
    res: "groups res = bestGroups st"
    by (rule generateGroupsOptimized_Some)
  let ?gc = "length first"
  let ?P = "\<lambda>st rs. validRng rs \<and> 0 < ?gc \<and> length (curGroups st) = ?gc
      \<and> mset (concat (curGroups st)) = mset students
      \<and> mset (concat (bestGroups st)) = mset students"
  from shuffle_mset[OF sh assms(2)] have m: "mset shuffled = mset students" "validRng rs1"
    by simp_all
  have c: "concat first = shuffled"
    using assms(1) ch by (intro concat_chunkGroups) simp_all
  have "shuffled \<noteq> []" using m(1) False by auto
  with c have "first \<noteq> []" by auto
  with m c have init: "?P (initialState first groupSize fp w) rs1"
    by (simp add: initialState_simps)
  have "?P st rs2"
    by (rule searchLoop_invariant[where P = ?P, OF _ loop init]) (rule attempt_entities)
  with res show ?thesis by simp
qed

lemma generateGroupsOptimized_ids:
  assumes "2 \<le> groupSize" "validRng rs"
    and "generateGroupsOptimized students groupSize fp attempts w rs = Some (Inr res)"
  shows "mset (map id_s (concat (groups res))) = mset (map id_s students)"
  using arg_cong[OF generateGroupsOptimized_entities[OF assms], of "image_mset id_s"]
  by simp

text \<open>
  Claim C1. For a group size of at least two, any budget, forbidden set and weights, and
  any values of the random source (each in the unit interval): the values can be continued
  so that \<open>generateGroupsOptimized\<close> returns a partition, and a partition that it returns,
  on these values or on their continuation, holds every id of the input as often as the
  input does: nothing is dropped, nothing duplicated.
\<close>

theorem generateGroupsOptimized_keeps_ids:
  assumes "2 \<le> groupSize" "validRng rs"
  shows "(\<exists>e res. validRng e
            \<and> generateGroupsOptimized students groupSize fp attempts w (rs @ e) = Some (Inr res)
            \<and> mset (map id_s (concat (groups res))) = mset (map id_s students))
         \<and> (\<forall>res. generateGroupsOptimized students groupSize fp attempts w rs = Some (Inr res)
              \<longrightarrow> mset (map id_s (concat (groups res))) = mset (map id_s students))"
proof
  from generateGroupsOptimized_extends[OF assms(1), of students fp attempts w rs]
  obtain e res where
    e: "validRng e"
      "generateGroupsOptimized students groupSize fp attempts w (rs @ e) = Some (Inr res)"
    by blast
  have "validRng (rs @ e)" using assms(2) e(1) by (simp add: validRng_append)
  from generateGroupsOptimized_ids[OF assms(1) this e(2)] e
  show "\<exists>e res. validRng e
            \<and> generateGroupsOptimized students groupSize fp attempts w (rs @ e) = Some (Inr res)
            \<and> mset (map id_s (concat (groups res))) = mset (map id_s students)"
    by blast
next
  show "\<forall>res. generateGroupsOptimized students groupSize fp attempts w rs = Some (Inr res)
              \<longrightarrow> mset (map id_s (concat (groups res))) = mset (map id_s students)"
    using generateGroupsOptimized_ids[OF assms] by blast
qed

theorem generateGroupsOptimized_keeps_ids_witness:
  "\<exists>res. generateGroupsOptimized exStudents 2 {} 3 defaultWeights exDraws = Some (Inr res)
     \<and> groups res = [[stA, stB], [stC, stD]]
     \<and> mset (map id_s (concat (groups res))) = mset (map id_s exStudents)"
proof -
  have "(2::int) \<le> 2" by simp
  from generateGroupsOptimized_keeps_ids[OF this validRng_exDraws, of exStudents "{}" 3
      defaultWeights]
  show ?thesis
    by (simp add: example_run)
qed

lemma generateGroupsOptimized_best:
  assumes "students \<noteq> []" "2 \<le> groupSize"
    and run: "generateGroupsOptimized students groupSize fp attempts w rs = Some (Inr res)"
  shows "\<exists>shuffled rs1 first. shuffle students rs = Some (shuffled, rs1)
            \<and> chunkGroups shuffled groupSize = Some first
            \<and> score res \<le> totalScore first fp groupSize w"
proof -
  from run assms(1,2) obtain shuffled rs1 first st rs2 where
    sh: "shuffle students rs = Some (shuffled, rs1)" and
    ch: "chunkGroups shuffled groupSize = Some first" and
    loop: "searchLoop fp groupSize w attempts (length first) 0
       (initialState first groupSize fp w) rs1 = Some (st, rs2)" and
    res: "score res = bestScore st"
    by (rule generateGroupsOptimized_Some)
  let ?B = "totalScore first fp groupSize w"
  let ?P = "\<lambda>st (rs :: Rng). bestScore st \<le> ?B"
  have init: "?P (initialState first groupSize fp w) rs1"
    by (simp add: initialState_simps)
  have "?P st rs2"
  proof (rule searchLoop_invariant[where P = ?P, OF _ loop init])
    fix t st rs fl st' rs'
    assume "attempt fp groupSize w attempts (length first) t st rs
              = Some (fl, st', rs')" "bestScore st \<le> ?B"
    with attempt_best[OF this(1)] show "bestScore st' \<le> ?B" by auto
  qed
  with sh ch res show ?thesis by simp
qed

text \<open>
  Claim C6. For a non-empty list, a group size of at least two and any budget: the values
  of the random source can be continued so that \<open>generateGroupsOptimized\<close> returns; a
  score that it returns is at most the total score of the first partition, the chunking of
  the shuffled list; a round of the loop returns once the values are continued; and a
  round either lowers the recorded best score strictly or leaves the best score and the
  best partition as they are.
\<close>

theorem generateGroupsOptimized_best_le_first:
  assumes "students \<noteq> []" "2 \<le> groupSize"
  shows "(\<exists>e res. validRng e
            \<and> generateGroupsOptimized students groupSize fp attempts w (rs @ e) = Some (Inr res))
         \<and> (\<forall>res. generateGroupsOptimized students groupSize fp attempts w rs = Some (Inr res)
              \<longrightarrow> (\<exists>shuffled rs1 first. shuffle students rs = Some (shuffled, rs1)
                    \<and> chunkGroups shuffled groupSize = Some first
                    \<and> score res \<le> totalScore first fp groupSize w))
         \<and> (\<forall>gc t st rs0. \<exists>e fl st' rs'. validRng e
              \<and> attempt fp groupSize w attempts gc t st (rs0 @ e) = Some (fl, st', rs'))
         \<and> (\<forall>gc t st rs0 fl st' rs'.
              attempt fp groupSize w attempts gc t st rs0 = Some (fl, st', rs')
              \<longrightarrow> bestScore st' < bestScore st
                  \<or> (bestScore st' = bestScore st \<and> bestGroups st' = bestGroups st))"
proof (intro conjI)
  show "\<exists>e res. validRng e
            \<and> generateGroupsOptimized students groupSize fp attempts w (rs @ e) = Some (Inr res)"
    using assms(2) by (rule generateGroupsOptimized_extends)
  show "\<forall>res. generateGroupsOptimized students groupSize fp attempts w rs = Some (Inr res)
              \<longrightarrow> (\<exists>shuffled rs1 first. shuffle students rs = Some (shuffled, rs1)
                    \<and> chunkGroups shuffled groupSize = Some first
                    \<and> score res \<le> totalScore first fp groupSize w)"
    using generateGroupsOptimized_best[OF assms] by blast
  show "\<forall>gc t st rs0. \<exists>e fl st' rs'. validRng e
              \<and> attempt fp groupSize w attempts gc t st (rs0 @ e) = Some (fl, st', rs')"
    by (intro allI) (rule attempt_extends)
  show "\<forall>gc t st rs0 fl st' rs'.
              attempt fp groupSize w attempts gc t st rs0 = Some (fl, st', rs')
              \<longrightarrow> bestScore st' < bestScore st
                  \<or> (bestScore st' = bestScore st \<and> bestGroups st' = bestGroups st)"
    by (intro allI impI) (rule attempt_best)
qed

theorem generateGroupsOptimized_best_le_first_witness:
  "\<exists>res shuffled rs1 first.
     generateGroupsOptimized exStudents 2 {} 3 defaultWeights exDraws = Some (Inr res)
     \<and> shuffle exStudents exDraws = Some (shuffled, rs1)
     \<and> chunkGroups shuffled 2 = Some first
     \<and> score res \<le> totalScore first {} 2 defaultWeights
     \<and> score res = 6
     \<and> totalScore first {} 2 defaultWeights = 22"
proof -
  have "exStudents \<noteq> []" by (simp add: exStudents_def)
  moreover have "(2::int) \<le> 2" by simp
  ultimately have "\<exists>shuffled rs1 first. shuffle exStudents exDraws = Some (shuffled, rs1)
     \<and> chunkGroups shuffled 2 = Some first
     \<and> score \<lparr>groups = [[stA, stB], [stC, stD]], score = 6\<rparr>
         \<le> totalScore first {} 2 defaultWeights"
    using generateGroupsOptimized_best_le_first[of exStudents 2 "{}" 3 defaultWeights exDraws]
      example_run
    by blast
  then show ?thesis
    by (simp add: example_run example_shuffle example_first)
qed

subsection \<open>The sizes of the groups\<close>

lemma ceiling_div_nat:
  assumes "0 < s"
  shows "\<lceil>real n / real s\<rceil> = int (n div s) + (if n mod s = 0 then 0 else 1)"
proof -
  have "\<lceil>real n / real s\<rceil> = \<lceil>real_of_int (int n) / real_of_int (int s)\<rceil>" by simp
  also have "\<dots> = - (- int n div int s)" by (rule ceiling_divide_eq_div)
  also have "\<dots> = (if int n mod int s = 0 then int n div int s else int n div int s + 1)"
    using assms by (simp add: zdiv_zminus1_eq_if)
  finally have c: "\<lceil>real n / real s\<rceil>
      = (if int n mod int s = 0 then int n div int s else int n div int s + 1)" .
  have d: "int n div int s = int (n div s)" by (simp add: zdiv_int)
  have m: "int n mod int s = 0 \<longleftrightarrow> n mod s = 0"
    by (metis of_nat_eq_0_iff zmod_int)
  show ?thesis
    unfolding c d m by simp
qed

lemma profile_facts:
  assumes L: "map length gs = replicate (n div s) s @ (if n mod s = 0 then [] else [n mod s])"
    and "0 < s" "0 < n"
  shows "length gs = n div s + (if n mod s = 0 then 0 else 1)"
    and "\<forall>k. Suc k < length gs \<longrightarrow> length (gs ! k) = s"
    and "length (last gs) = (if n mod s \<noteq> 0 then n mod s else s)"
    and "[] \<notin> set gs"
proof -
  let ?L = "replicate (n div s) s @ (if n mod s = 0 then [] else [n mod s])"
  show len: "length gs = n div s + (if n mod s = 0 then 0 else 1)"
    using arg_cong[OF L, of length] by simp
  have q: "n mod s = 0 \<Longrightarrow> 0 < n div s"
    using assms(3) mult_div_mod_eq[of s n] by (cases "n div s") auto
  show "\<forall>k. Suc k < length gs \<longrightarrow> length (gs ! k) = s"
  proof (intro allI impI)
    fix k assume k: "Suc k < length gs"
    then have kq: "k < n div s" using len by (simp split: if_splits)
    have "length (gs ! k) = map length gs ! k" using k by simp
    also have "\<dots> = s" unfolding L using kq by (simp add: nth_append)
    finally show "length (gs ! k) = s" .
  qed
  have ne: "gs \<noteq> []" using len q by (auto split: if_splits)
  then have "length (last gs) = last (map length gs)" by (simp add: last_map)
  also have "\<dots> = (if n mod s \<noteq> 0 then n mod s else s)"
    unfolding L using q by (auto simp: last_append)
  finally show "length (last gs) = (if n mod s \<noteq> 0 then n mod s else s)" .
  have "0 \<notin> set (map length gs)"
    unfolding L using assms(2) by auto
  then show "[] \<notin> set gs" by force
qed

lemma generateGroupsOptimized_sizes:
  assumes "students \<noteq> []" "2 \<le> groupSize"
    and run: "generateGroupsOptimized students groupSize fp attempts w rs = Some (Inr res)"
  shows "int (length (groups res)) = \<lceil>real (length students) / real_of_int groupSize\<rceil>
    \<and> (\<forall>k. Suc k < length (groups res) \<longrightarrow> int (length (groups res ! k)) = groupSize)
    \<and> int (length (last (groups res)))
        = (if int (length students) mod groupSize \<noteq> 0
           then int (length students) mod groupSize else groupSize)
    \<and> [] \<notin> set (groups res)"
proof -
  from run assms(1,2) obtain shuffled rs1 first st rs2 where
    sh: "shuffle students rs = Some (shuffled, rs1)" and
    ch: "chunkGroups shuffled groupSize = Some first" and
    loop: "searchLoop fp groupSize w attempts (length first) 0
       (initialState first groupSize fp w) rs1 = Some (st, rs2)" and
    res: "groups res = bestGroups st"
    by (rule generateGroupsOptimized_Some)
  define s where "s = nat groupSize"
  define n where "n = length students"
  have s: "0 < s" "groupSize = int s" using assms(2) by (simp_all add: s_def)
  have n: "0 < n" using assms(1) by (simp add: n_def)
  let ?L = "replicate (n div s) s @ (if n mod s = 0 then [] else [n mod s])"
  let ?P = "\<lambda>st (rs :: Rng). map length (curGroups st) = ?L \<and> map length (bestGroups st) = ?L"
  have "length shuffled = n" using shuffle_length[OF sh] by (simp add: n_def)
  then have "map length first = ?L"
    using assms(2) lengths_chunkGroups[OF _ ch] by (simp add: s_def)
  then have init: "?P (initialState first groupSize fp w) rs1"
    by (simp add: initialState_simps)
  have "?P st rs2"
    by (rule searchLoop_invariant[where P = ?P, OF _ loop init]) (rule attempt_lengths)
  then have L: "map length (groups res) = ?L" using res by simp
  note pf = profile_facts[OF L s(1) n]
  have "int (length (groups res)) = \<lceil>real n / real s\<rceil>"
    using pf(1) ceiling_div_nat[OF s(1), of n] by simp
  moreover have "int n mod int s = int (n mod s)" by (simp add: zmod_int)
  ultimately show ?thesis
    using pf(2,3,4) unfolding s(2) n_def[symmetric] by auto
qed

text \<open>
  Claim C10. For \<open>n > 0\<close> students, group size \<open>s \<ge> 2\<close> and any budget: the values of
  the random source can be continued so that \<open>generateGroupsOptimized\<close> returns a
  partition, and a partition that it returns has \<open>\<lceil>n / s\<rceil>\<close> groups; every group but
  the last has \<open>s\<close> members; the last has \<open>n mod s\<close> members if that is not zero and
  \<open>s\<close> otherwise; no group is empty.
\<close>

theorem generateGroupsOptimized_size_profile:
  assumes "students \<noteq> []" "2 \<le> groupSize"
  shows "(\<exists>e res. validRng e
            \<and> generateGroupsOptimized students groupSize fp attempts w (rs @ e) = Some (Inr res))
    \<and> (\<forall>res. generateGroupsOptimized students groupSize fp attempts w rs = Some (Inr res)
         \<longrightarrow> int (length (groups res)) = \<lceil>real (length students) / real_of_int groupSize\<rceil>
           \<and> (\<forall>k. Suc k < length (groups res)
                  \<longrightarrow> int (length (groups res ! k)) = groupSize)
           \<and> int (length (last (groups res)))
               = (if int (length students) mod groupSize \<noteq> 0
                  then int (length students) mod groupSize else groupSize)
           \<and> [] \<notin> set (groups res))"
proof
  show "\<exists>e res. validRng e
            \<and> generateGroupsOptimized students groupSize fp attempts w (rs @ e) = Some (Inr res)"
    using assms(2) by (rule generateGroupsOptimized_extends)
next
  show "\<forall>res. generateGroupsOptimized students groupSize fp attempts w rs = Some (Inr res)
         \<longrightarrow> int (length (groups res)) = \<lceil>real (length students) / real_of_int groupSize\<rceil>
           \<and> (\<forall>k. Suc k < length (groups res)
                  \<longrightarrow> int (length (groups res ! k)) = groupSize)
           \<and> int (length (last (groups res)))
               = (if int (length students) mod groupSize \<noteq> 0
                  then int (length students) mod groupSize else groupSize)
           \<and> [] \<notin> set (groups res)"
    using generateGroupsOptimized_sizes[OF assms] by blast
qed

theorem generateGroupsOptimized_size_profile_witness:
  "\<exists>res. generateGroupsOptimized smallStudents 2 {} 1 defaultWeights smallDraws = Some (Inr res)
     \<and> int (length (groups res)) = \<lceil>real (length smallStudents) / real_of_int 2\<rceil>
     \<and> int (length (groups res ! 0)) = 2
     \<and> int (length (last (groups res))) = int (length smallStudents) mod 2
     \<and> [] \<notin> set (groups res)"
proof -
  have len: "length smallStudents = 3" by (simp add: smallStudents_def)
  then have "smallStudents \<noteq> []" by auto
  moreover have "(2::int) \<le> 2" by simp
  ultimately show ?thesis
    using generateGroupsOptimized_size_profile[of smallStudents 2 "{}" 1 defaultWeights
        smallDraws]
    by (simp add: small_run len)
qed

end
